theory Spec2Isabelle
  imports Complex_Main "HOL-Library.Word" "HOL-Library.Log_Nat"
begin

section \<open>The Linke-turbidity grid builder (scripts/python/tlgrid.py)\<close>

text \<open>
  The script builds a monthly turbidity grid in three stages: \<open>centers\<close> computes the
  cell centres of an axis, \<open>build_grid\<close> samples the climatology provider through
  \<open>lt_lookup\<close> and quantizes every value to a byte, and \<open>write_bin\<close> serializes the
  header and the byte volume. Python exceptions are values of the type \<open>pyexc\<close>; a
  computation that may raise returns \<open>pyexc + 'a\<close>, with \<open>Inl\<close> for the exception.
\<close>

subsection \<open>Exceptions\<close>

datatype pyexc =
    TypeError
  | ValueError
  | OverflowError
  | ZeroDivisionError
  | IndexError
  | StructError
  | Raised string

definition bind :: "pyexc + 'a \<Rightarrow> ('a \<Rightarrow> pyexc + 'b) \<Rightarrow> pyexc + 'b" where
  "bind r f = (case r of Inl e \<Rightarrow> Inl e | Inr v \<Rightarrow> f v)"

subsection \<open>Floating-point numbers\<close>

text \<open>
  A Python \<open>float\<close> and a numpy \<open>float64\<close> are IEEE 754 binary64 values. A finite
  non-zero value is the rational number it denotes; the two zeros, the two infinities
  and NaN are separate constructors (\<open>Fin 0\<close> is \<open>+0.0\<close>, \<open>NZero\<close> is \<open>-0.0\<close>). Every
  arithmetic operation computes the exact rational result and rounds it to the nearest
  representable value, ties to even, as the hardware does.

  \<open>ilog2 a\<close> is the binary exponent \<open>\<lfloor>log\<^sub>2 a\<rfloor>\<close> of a positive rational and \<open>rhe\<close>
  rounds a rational to the nearest integer, ties to even. \<open>fl_parts p emin a\<close> is the
  rounded significand and the exponent of \<open>a > 0\<close> in a format with \<open>p\<close> significand bits
  and smallest normal exponent \<open>emin\<close>; \<open>fl_round\<close> is the rounded value, an infinity
  when it exceeds the format.
\<close>

datatype pyfloat = Fin rat | NZero | PInf | NInf | NaN

definition ilog2 :: "rat \<Rightarrow> int" where
  "ilog2 a = (if 1 \<le> a then bitlen \<lfloor>a\<rfloor> - 1 else - bitlen (\<lceil>1 / a\<rceil> - 1))"

definition rhe :: "rat \<Rightarrow> int" where
  "rhe q = (let f = \<lfloor>q\<rfloor>; d = q - of_int f
            in if d < 1 / 2 then f else if 1 / 2 < d then f + 1
               else if even f then f else f + 1)"

definition fl_parts :: "nat \<Rightarrow> int \<Rightarrow> rat \<Rightarrow> int \<times> int" where
  "fl_parts p emin a =
     (let e = max (ilog2 a) emin in (rhe (a / 2 powi (e - int p + 1)), e))"

definition fl_round :: "nat \<Rightarrow> int \<Rightarrow> int \<Rightarrow> rat \<Rightarrow> pyfloat" where
  "fl_round p emin emax q =
     (if q = 0 then Fin 0
      else let (m, e) = fl_parts p emin \<bar>q\<bar>;
               r = of_int m * 2 powi (e - int p + 1)
           in if 2 powi (emax + 1) \<le> r then (if q < 0 then NInf else PInf)
              else if r = 0 then (if q < 0 then NZero else Fin 0)
              else Fin (if q < 0 then - r else r))"

definition r64 :: "rat \<Rightarrow> pyfloat" where
  "r64 = fl_round 53 (- 1022) 1023"

definition r32 :: "rat \<Rightarrow> pyfloat" where
  "r32 = fl_round 24 (- 126) 127"

fun signbit :: "pyfloat \<Rightarrow> bool" where
  "signbit (Fin q) = (q < 0)"
| "signbit NZero = True"
| "signbit NInf = True"
| "signbit PInf = False"
| "signbit NaN = False"

fun fval :: "pyfloat \<Rightarrow> rat" where
  "fval (Fin q) = q"
| "fval x = 0"

fun is_finite :: "pyfloat \<Rightarrow> bool" where
  "is_finite (Fin q) = True"
| "is_finite NZero = True"
| "is_finite x = False"

fun is_inf :: "pyfloat \<Rightarrow> bool" where
  "is_inf PInf = True"
| "is_inf NInf = True"
| "is_inf x = False"

definition is_zero :: "pyfloat \<Rightarrow> bool" where
  "is_zero x = (x = Fin 0 \<or> x = NZero)"

definition zero_of :: "bool \<Rightarrow> pyfloat" where
  "zero_of neg = (if neg then NZero else Fin 0)"

definition inf_of :: "bool \<Rightarrow> pyfloat" where
  "inf_of neg = (if neg then NInf else PInf)"

fun fneg :: "pyfloat \<Rightarrow> pyfloat" where
  "fneg (Fin q) = (if q = 0 then NZero else Fin (- q))"
| "fneg NZero = Fin 0"
| "fneg PInf = NInf"
| "fneg NInf = PInf"
| "fneg NaN = NaN"

definition fadd :: "pyfloat \<Rightarrow> pyfloat \<Rightarrow> pyfloat" where
  "fadd x y =
     (if x = NaN \<or> y = NaN then NaN
      else if is_inf x \<and> is_inf y then (if x = y then x else NaN)
      else if is_inf x then x
      else if is_inf y then y
      else let s = fval x + fval y
           in if s = 0 then zero_of (signbit x \<and> signbit y) else r64 s)"

definition fsub :: "pyfloat \<Rightarrow> pyfloat \<Rightarrow> pyfloat" where
  "fsub x y = fadd x (fneg y)"

definition fmul :: "pyfloat \<Rightarrow> pyfloat \<Rightarrow> pyfloat" where
  "fmul x y =
     (if x = NaN \<or> y = NaN then NaN
      else if is_inf x \<or> is_inf y then
        (if is_zero x \<or> is_zero y then NaN else inf_of (signbit x \<noteq> signbit y))
      else let p = fval x * fval y
           in if p = 0 then zero_of (signbit x \<noteq> signbit y) else r64 p)"

definition fdiv :: "pyfloat \<Rightarrow> pyfloat \<Rightarrow> pyfloat" where
  "fdiv x y =
     (if x = NaN \<or> y = NaN then NaN
      else if is_inf x then (if is_inf y then NaN else inf_of (signbit x \<noteq> signbit y))
      else if is_inf y then zero_of (signbit x \<noteq> signbit y)
      else if is_zero y then
        (if is_zero x then NaN else inf_of (signbit x \<noteq> signbit y))
      else if is_zero x then zero_of (signbit x \<noteq> signbit y)
      else r64 (fval x / fval y))"

text \<open>The comparison \<open><\<close>: false as soon as an operand is NaN, and the two zeros are equal.\<close>

definition flt :: "pyfloat \<Rightarrow> pyfloat \<Rightarrow> bool" where
  "flt x y =
     (if x = NaN \<or> y = NaN then False
      else if x = PInf \<or> y = NInf then False
      else if x = NInf \<or> y = PInf then True
      else fval x < fval y)"


definition float_of_int :: "int \<Rightarrow> pyfloat" where
  "float_of_int i = r64 (of_int i)"

subsection \<open>Python and numpy primitives\<close>

text \<open>
  Python's \<open>/\<close> on floats raises \<open>ZeroDivisionError\<close> for a zero divisor (numpy's does
  not, it is \<open>fdiv\<close>), and \<open>round\<close> with one argument returns the nearest integer, ties
  to even, raising \<open>ValueError\<close> for NaN and \<open>OverflowError\<close> for an infinity.
\<close>

definition py_truediv :: "pyfloat \<Rightarrow> pyfloat \<Rightarrow> pyexc + pyfloat" where
  "py_truediv x y = (if is_zero y then Inl ZeroDivisionError else Inr (fdiv x y))"

definition py_round :: "pyfloat \<Rightarrow> pyexc + int" where
  "py_round x =
     (if x = NaN then Inl ValueError
      else if is_inf x then Inl OverflowError
      else Inr (rhe (fval x)))"

text \<open>
  \<open>numpy.linspace(start, stop, num)\<close> with its default \<open>endpoint=True\<close>, as numpy
  implements it: a negative \<open>num\<close> raises \<open>ValueError\<close>; otherwise the samples are
  \<open>arange(0, num) * step + start\<close> with \<open>step = (stop - start) / (num - 1)\<close> (when the step
  underflows to zero the index is divided first; for fewer than two samples the indices
  are multiplied by \<open>stop - start\<close>), and for more than one sample the last one is then
  overwritten with \<open>stop\<close>.
\<close>

definition np_linspace :: "pyfloat \<Rightarrow> pyfloat \<Rightarrow> int \<Rightarrow> pyexc + pyfloat list" where
  "np_linspace start stop num =
     (if num < 0 then Inl ValueError
      else
        let dv = num - 1;
            delta = fsub stop start;
            y0 = map (\<lambda>k. float_of_int (int k)) [0..<nat num];
            y1 = (if 0 < dv then
                    let step = fdiv delta (float_of_int dv)
                    in if is_zero step
                       then map (\<lambda>a. fmul (fdiv a (float_of_int dv)) delta) y0
                       else map (\<lambda>a. fmul a step) y0
                  else map (\<lambda>a. fmul a delta) y0);
            y2 = map (\<lambda>a. fadd a start) y1
        in Inr (if 1 < num then y2[nat num - 1 := stop] else y2))"

text \<open>
  \<open>numpy.clip(x, lo, hi)\<close> is \<open>minimum(maximum(x, lo), hi)\<close> and lets NaN through;
  \<open>numpy.rint\<close> rounds to the nearest integral value, ties to even, and keeps the sign
  of a result that is zero. \<open>astype(numpy.uint8)\<close> is the C conversion: the value is
  truncated towards zero, and where the C standard leaves the conversion undefined (NaN,
  an infinity, a truncated value outside \<open>0..255\<close>) the result is the platform's, the
  parameter \<open>ub\<close>.
\<close>

definition np_clip :: "pyfloat \<Rightarrow> pyfloat \<Rightarrow> pyfloat \<Rightarrow> pyfloat" where
  "np_clip x lo hi =
     (let a = (if x = NaN then x else if flt lo x then x else lo)
      in if a = NaN then a else if flt a hi then a else hi)"

fun np_rint :: "pyfloat \<Rightarrow> pyfloat" where
  "np_rint (Fin q) = (let n = rhe q in if n = 0 then zero_of (q < 0) else Fin (of_int n))"
| "np_rint x = x"

definition trunc0 :: "rat \<Rightarrow> int" where
  "trunc0 q = (if 0 \<le> q then \<lfloor>q\<rfloor> else \<lceil>q\<rceil>)"

definition astype_uint8 :: "(pyfloat \<Rightarrow> 8 word) \<Rightarrow> pyfloat \<Rightarrow> 8 word" where
  "astype_uint8 ub x =
     (if is_finite x \<and> 0 \<le> trunc0 (fval x) \<and> trunc0 (fval x) \<le> 255
      then word_of_int (trunc0 (fval x)) else ub x)"

subsection \<open>Grid geometry: \<open>centers\<close>\<close>

definition centers :: "pyfloat \<Rightarrow> pyfloat \<Rightarrow> pyfloat \<Rightarrow> pyexc + (pyfloat list \<times> int)" where
  "centers vmin vmax dv =
     bind (py_truediv (fsub vmax vmin) dv) (\<lambda>q.
     bind (py_round q) (\<lambda>n.
     bind (np_linspace (fadd vmin (fdiv dv (Fin 2))) (fsub vmax (fdiv dv (Fin 2))) n) (\<lambda>c.
     Inr (c, n))))"

subsection \<open>The sampler \<open>lt_lookup\<close>\<close>

text \<open>
  \<open>lookup_linke_turbidity\<close> belongs to pvlib, not to the script, so it is a parameter:
  a function of the call shape and the three arguments that returns the monthly series
  or raises. A call whose shape the installed version does not accept is what Python
  reports as \<open>TypeError\<close>, the one class the handler of \<open>lt_lookup\<close> names. Besides its
  result, the model returns the list of calls it made on the provider, in order.
\<close>

datatype call_shape = Keyword | Positional

type_synonym ('m, 'c, 's) provider = "call_shape \<Rightarrow> 'm \<Rightarrow> 'c \<Rightarrow> 'c \<Rightarrow> pyexc + 's"

definition lt_lookup ::
  "('m, 'c, 's) provider \<Rightarrow> 'm \<Rightarrow> 'c \<Rightarrow> 'c \<Rightarrow> call_shape list \<times> (pyexc + 's)" where
  "lt_lookup lookup_linke_turbidity months lat lon =
     (case lookup_linke_turbidity Keyword months lat lon of
        Inr series \<Rightarrow> ([Keyword], Inr series)
      | Inl TypeError \<Rightarrow>
          ([Keyword, Positional], lookup_linke_turbidity Positional months lat lon)
      | Inl e \<Rightarrow> ([Keyword], Inl e))"

subsection \<open>The quantizer\<close>

text \<open>
  The expression \<open>np.rint(np.clip(tl * SCALE, 0, 255)).astype(np.uint8)\<close> of
  \<open>build_grid\<close>, for one element of the series. \<open>SCALE\<close> and the two bounds are Python
  integers, which numpy converts to \<open>float64\<close>.
\<close>

definition quantize :: "(pyfloat \<Rightarrow> 8 word) \<Rightarrow> int \<Rightarrow> pyfloat \<Rightarrow> 8 word" where
  "quantize ub scale v =
     astype_uint8 ub
       (np_rint (np_clip (fmul v (float_of_int scale)) (float_of_int 0) (float_of_int 255)))"

subsection \<open>The grid assembler \<open>build_grid\<close>\<close>

text \<open>
  The configuration constants of the script are the fields of a record, so that the
  assembler can be stated for any configuration; \<open>CONFIG\<close> holds the script's values.
  The volume \<open>out\<close> is a three-dimensional array, indexed \<open>[month][lat][lon]\<close>.
\<close>

record config =
  LAT_MIN :: pyfloat
  LAT_MAX :: pyfloat
  DLAT :: pyfloat
  LON_MIN :: pyfloat
  LON_MAX :: pyfloat
  DLON :: pyfloat
  SCALE :: int


record meta =
  nlat :: int
  nlon :: int
  lat0 :: pyfloat
  lon0 :: pyfloat
  dlat :: pyfloat
  dlon :: pyfloat
  scale :: int

type_synonym volume = "8 word list list list"

text \<open>
  The assignment \<open>out[:, i, j] = v\<close>: a series of twelve values is stored month by
  month, a series of one value is broadcast to the twelve months, and any other length
  raises \<open>ValueError\<close>.
\<close>

definition set_cell :: "volume \<Rightarrow> nat \<Rightarrow> nat \<Rightarrow> 8 word list \<Rightarrow> pyexc + volume" where
  "set_cell out i j v =
     (if length v = length out then
        Inr (map (\<lambda>m. (out ! m)[i := (out ! m ! i)[j := v ! m]]) [0..<length out])
      else if length v = 1 then
        Inr (map (\<lambda>m. (out ! m)[i := (out ! m ! i)[j := v ! 0]]) [0..<length out])
      else Inl ValueError)"

text \<open>
  The body of the inner loop: one call of the sampler, whose calls on the provider are
  appended to the log together with the coordinates, the quantization of the series, and
  the store into the volume.
\<close>

type_synonym call_log = "(pyfloat \<times> pyfloat \<times> call_shape) list"

definition cell ::
  "(pyfloat \<Rightarrow> 8 word) \<Rightarrow> (nat list, pyfloat, pyfloat list) provider \<Rightarrow> nat list \<Rightarrow> int \<Rightarrow>
     nat \<Rightarrow> pyfloat \<Rightarrow> nat \<Rightarrow> pyfloat \<Rightarrow> call_log \<times> volume \<Rightarrow> call_log \<times> (pyexc + volume)" where
  "cell ub prov months sc i lat j lon st =
     (let (shapes, r) = lt_lookup prov months lat lon;
          calls = fst st @ map (\<lambda>s. (lat, lon, s)) shapes
      in case r of
           Inl e \<Rightarrow> (calls, Inl e)
         | Inr series \<Rightarrow> (calls, set_cell (snd st) i j (map (quantize ub sc) series)))"

fun lon_loop ::
  "(pyfloat \<Rightarrow> 8 word) \<Rightarrow> (nat list, pyfloat, pyfloat list) provider \<Rightarrow> nat list \<Rightarrow> int \<Rightarrow>
     nat \<Rightarrow> pyfloat \<Rightarrow> (nat \<times> pyfloat) list \<Rightarrow> call_log \<times> volume \<Rightarrow> call_log \<times> (pyexc + volume)" where
  "lon_loop ub prov months sc i lat [] st = (fst st, Inr (snd st))"
| "lon_loop ub prov months sc i lat ((j, lon) # rest) st =
     (case cell ub prov months sc i lat j lon st of
        (calls, Inl e) \<Rightarrow> (calls, Inl e)
      | (calls, Inr out) \<Rightarrow> lon_loop ub prov months sc i lat rest (calls, out))"

fun lat_loop ::
  "(pyfloat \<Rightarrow> 8 word) \<Rightarrow> (nat list, pyfloat, pyfloat list) provider \<Rightarrow> nat list \<Rightarrow> int \<Rightarrow>
     (nat \<times> pyfloat) list \<Rightarrow> (nat \<times> pyfloat) list \<Rightarrow> call_log \<times> volume \<Rightarrow> call_log \<times> (pyexc + volume)" where
  "lat_loop ub prov months sc [] lons st = (fst st, Inr (snd st))"
| "lat_loop ub prov months sc ((i, lat) # rest) lons st =
     (case lon_loop ub prov months sc i lat lons st of
        (calls, Inl e) \<Rightarrow> (calls, Inl e)
      | (calls, Inr out) \<Rightarrow> lat_loop ub prov months sc rest lons (calls, out))"

definition enumerate_list :: "'a list \<Rightarrow> (nat \<times> 'a) list" where
  "enumerate_list xs = zip [0..<length xs] xs"

definition item0 :: "'a list \<Rightarrow> pyexc + 'a" where
  "item0 xs = (case xs of [] \<Rightarrow> Inl IndexError | x # _ \<Rightarrow> Inr x)"

definition build_grid ::
  "config \<Rightarrow> (pyfloat \<Rightarrow> 8 word) \<Rightarrow> (nat list, pyfloat, pyfloat list) provider \<Rightarrow>
     call_log \<times> (pyexc + volume \<times> meta)" where
  "build_grid cfg ub prov =
     (case centers (LAT_MIN cfg) (LAT_MAX cfg) (DLAT cfg) of
        Inl e \<Rightarrow> ([], Inl e)
      | Inr (lats, n_lat) \<Rightarrow>
     (case centers (LON_MIN cfg) (LON_MAX cfg) (DLON cfg) of
        Inl e \<Rightarrow> ([], Inl e)
      | Inr (lons, n_lon) \<Rightarrow>
     (let months = [0..<12];
          out = replicate 12 (replicate (nat n_lat) (replicate (nat n_lon) 0))
      in case lat_loop ub prov months (SCALE cfg) (enumerate_list lats) (enumerate_list lons)
                ([], out) of
           (calls, Inl e) \<Rightarrow> (calls, Inl e)
         | (calls, Inr out') \<Rightarrow>
             (calls,
              bind (item0 lats) (\<lambda>la0.
              bind (item0 lons) (\<lambda>lo0.
              Inr (out', \<lparr>nlat = n_lat, nlon = n_lon, lat0 = la0, lon0 = lo0,
                          dlat = DLAT cfg, dlon = DLON cfg, scale = SCALE cfg\<rparr>)))))))"

subsection \<open>The binary encoder \<open>write_bin\<close>\<close>

text \<open>
  \<open>struct.pack\<close> with the formats the encoder uses. \<open><H\<close> and \<open><B\<close> accept an integer of
  the field's range and raise \<open>struct.error\<close> otherwise. \<open><f\<close> converts the double to the
  nearest binary32 value (\<open>to_f32\<close>, the C conversion) and raises \<open>OverflowError\<close> when
  a finite double becomes an infinity. \<open>f32_bits\<close> is the bit pattern of the converted
  value: the sign bit and \<open>f32_mag\<close>, the biased exponent and the fraction of the
  magnitude, where a significand that rounds up to \<open>2\<^sup>2\<^sup>4\<close> carries into the exponent; a
  magnitude of \<open>0x7F800000\<close> or more is past the largest finite binary32 value.
\<close>

definition le_bytes :: "nat \<Rightarrow> int \<Rightarrow> 8 word list" where
  "le_bytes n w = map (\<lambda>i. word_of_int (w div 256 ^ i)) [0..<n]"

definition pack_H :: "int \<Rightarrow> pyexc + 8 word list" where
  "pack_H v = (if 0 \<le> v \<and> v \<le> 65535 then Inr (le_bytes 2 v) else Inl StructError)"

definition pack_B :: "int \<Rightarrow> pyexc + 8 word list" where
  "pack_B v = (if 0 \<le> v \<and> v \<le> 255 then Inr (le_bytes 1 v) else Inl StructError)"

definition to_f32 :: "pyfloat \<Rightarrow> pyfloat" where
  "to_f32 x = (case x of Fin q \<Rightarrow> r32 q | _ \<Rightarrow> x)"

definition f32_mag :: "rat \<Rightarrow> int" where
  "f32_mag a =
     (if a = 0 then 0
      else let (m, e) = fl_parts 24 (- 126) a in (e + 126) * 2 ^ 23 + m)"

fun f32_bits :: "pyfloat \<Rightarrow> int" where
  "f32_bits NaN = 0x7FC00000"
| "f32_bits PInf = 0x7F800000"
| "f32_bits NInf = 0xFF800000"
| "f32_bits NZero = 0x80000000"
| "f32_bits (Fin q) = (if q < 0 then 2 ^ 31 else 0) + f32_mag \<bar>q\<bar>"

definition pack_f :: "pyfloat \<Rightarrow> pyexc + 8 word list" where
  "pack_f x =
     (if is_finite x \<and> 0x7F800000 \<le> f32_mag \<bar>fval x\<bar> then Inl OverflowError
      else Inr (le_bytes 4 (f32_bits x)))"

definition f32_overflows :: "pyfloat \<Rightarrow> bool" where
  "f32_overflows x = (is_finite x \<and> 0x7F800000 \<le> f32_mag \<bar>fval x\<bar>)"

definition pack_ffff :: "pyfloat \<Rightarrow> pyfloat \<Rightarrow> pyfloat \<Rightarrow> pyfloat \<Rightarrow> pyexc + 8 word list" where
  "pack_ffff a b c d =
     bind (pack_f a) (\<lambda>a'.
     bind (pack_f b) (\<lambda>b'.
     bind (pack_f c) (\<lambda>c'.
     bind (pack_f d) (\<lambda>d'.
     Inr (a' @ b' @ c' @ d')))))"

definition magic :: "8 word list" where
  "magic = [0x54, 0x4C, 0x42, 0x32]"

definition header :: "meta \<Rightarrow> pyexc + 8 word list" where
  "header mt =
     bind (pack_H 2) (\<lambda>version.
     bind (pack_H (nlat mt)) (\<lambda>h_nlat.
     bind (pack_H (nlon mt)) (\<lambda>h_nlon.
     bind (pack_B (scale mt)) (\<lambda>h_scale.
     bind (pack_B 0) (\<lambda>reserved.
     bind (pack_ffff (lat0 mt) (lon0 mt) (dlat mt) (dlon mt)) (\<lambda>floats.
     Inr (magic @ version @ h_nlat @ h_nlon @ h_scale @ reserved @ floats)))))))"

text \<open>The 28 bytes of a header all of whose fields fit, in the order they are appended.\<close>

definition layout :: "meta \<Rightarrow> 8 word list" where
  "layout mt = magic @ le_bytes 2 2 @ le_bytes 2 (nlat mt) @ le_bytes 2 (nlon mt)
           @ le_bytes 1 (scale mt) @ le_bytes 1 0
           @ le_bytes 4 (f32_bits (lat0 mt)) @ le_bytes 4 (f32_bits (lon0 mt))
           @ le_bytes 4 (f32_bits (dlat mt)) @ le_bytes 4 (f32_bits (dlon mt))"

text \<open>
  \<open>arr.tobytes(order="C")\<close>: the last index varies fastest. \<open>shaped arr a b\<close> says that
  the nested list \<open>arr\<close> is an array of shape \<open>(12, a, b)\<close>.
\<close>

definition tobytes :: "volume \<Rightarrow> 8 word list" where
  "tobytes arr = concat (map concat arr)"

definition shaped :: "volume \<Rightarrow> nat \<Rightarrow> nat \<Rightarrow> bool" where
  "shaped arr a b =
     (length arr = 12 \<and> (\<forall>plane\<in>set arr. length plane = a \<and> (\<forall>row\<in>set plane. length row = b)))"

text \<open>
  The file system is a map from paths to contents. The header is packed before the file
  is opened, so an exception of \<open>struct.pack\<close> leaves the file system as it was. The
  operating system's own failures to open or write a file are not modelled.
\<close>

type_synonym filesystem = "string \<rightharpoonup> 8 word list"

definition write_bin ::
  "filesystem \<Rightarrow> string \<Rightarrow> volume \<Rightarrow> meta \<Rightarrow> filesystem \<times> (pyexc + unit)" where
  "write_bin fs path arr mt =
     (case header mt of
        Inl e \<Rightarrow> (fs, Inl e)
      | Inr h \<Rightarrow> (fs(path \<mapsto> h @ tobytes arr), Inr ()))"

subsection \<open>A reader of the format, from the specification\<close>

text \<open>
  The script has no reader. \<open>decode\<close> reads a byte stream field by field as the format
  table of the specification lays it out: magic, version 2, \<open>nlat\<close>, \<open>nlon\<close>, \<open>scale\<close>, the
  reserved zero byte, four little-endian binary32 values, and a month-major payload in
  which \<open>payload[m * nlat * nlon + i * nlon + j]\<close> is the value of month \<open>m\<close>, latitude
  index \<open>i\<close> and longitude index \<open>j\<close>. The volume it returns carries its shape.
\<close>

definition le_int :: "8 word list \<Rightarrow> int" where
  "le_int bs = foldr (\<lambda>b acc. uint b + 256 * acc) bs 0"

definition f32_of_bits :: "int \<Rightarrow> pyfloat" where
  "f32_of_bits w =
     (let s = (w div 2 ^ 31) mod 2 = 1; be = (w div 2 ^ 23) mod 256; fr = w mod 2 ^ 23
      in if be = 255 then (if fr = 0 then inf_of s else NaN)
         else if be = 0 \<and> fr = 0 then zero_of s
         else let a = (if be = 0 then of_int fr * 2 powi (- 149)
                       else of_int (2 ^ 23 + fr) * 2 powi (be - 150))
              in Fin (if s then - a else a))"

definition field :: "nat \<Rightarrow> nat \<Rightarrow> 8 word list \<Rightarrow> 8 word list" where
  "field off n bs = take n (drop off bs)"

definition decode :: "8 word list \<Rightarrow> ((nat \<times> nat \<times> nat) \<times> volume \<times> meta) option" where
  "decode bs =
     (if length bs < 28 \<or> field 0 4 bs \<noteq> magic \<or> le_int (field 4 2 bs) \<noteq> 2
         \<or> le_int (field 11 1 bs) \<noteq> 0
      then None
      else
        let n_lat = nat (le_int (field 6 2 bs)); n_lon = nat (le_int (field 8 2 bs));
            payload = drop 28 bs
        in if length payload \<noteq> 12 * n_lat * n_lon then None
           else Some ((12, n_lat, n_lon),
                  map (\<lambda>m. map (\<lambda>i. map (\<lambda>j. payload ! (m * n_lat * n_lon + i * n_lon + j))
                         [0..<n_lon]) [0..<n_lat]) [0..<12],
                  \<lparr>nlat = int n_lat, nlon = int n_lon,
                   lat0 = f32_of_bits (le_int (field 12 4 bs)),
                   lon0 = f32_of_bits (le_int (field 16 4 bs)),
                   dlat = f32_of_bits (le_int (field 20 4 bs)),
                   dlon = f32_of_bits (le_int (field 24 4 bs)),
                   scale = le_int (field 10 1 bs)\<rparr>))"

text \<open>The quantizer in the words of the specification: \<open>round(clip(value * scale, 0, 255))\<close>,
  the clip applied to the scaled float, then round-half-to-even.\<close>

definition clip_spec :: "pyfloat \<Rightarrow> rat" where
  "clip_spec x = (if x = PInf then 255 else if x = NInf then 0 else min (max (fval x) 0) 255)"

definition quantize_spec :: "pyfloat \<Rightarrow> int \<Rightarrow> int" where
  "quantize_spec v sc = rhe (clip_spec (fmul v (float_of_int sc)))"

subsection \<open>Example inputs\<close>

text \<open>
  A grid of one latitude and two longitudes with the script's first centres and steps,
  and \<open>2\<^sup>1\<^sup>2\<^sup>8\<close>, the smallest power of two that binary32 cannot hold.
\<close>

definition mt_script :: meta where
  "mt_script = \<lparr>nlat = 1, nlon = 2, lat0 = Fin (- (129 / 2)), lon0 = Fin (- (359 / 2)),
                 dlat = Fin 1, dlon = Fin 1, scale = 20\<rparr>"

definition too_large :: pyfloat where
  "too_large = Fin (2 ^ 128)"

definition arr_small :: volume where
  "arr_small = map (\<lambda>m. [[word_of_nat (2 * m), word_of_nat (2 * m + 1)]]) [0..<12]"

section \<open>Properties\<close>

subsection \<open>Rounding\<close>

text \<open>
  The exponent function brackets its argument between two powers of two, so the
  rounded value of a rational can be computed from any exponent that brackets it
  (\<open>fl_round_val\<close>); values that fit the significand are not changed by rounding
  (\<open>fl_round_exact\<close>), and rounding is idempotent.
\<close>

lemma ilog2_bounds:
  assumes "0 < a"
  shows "2 powi (ilog2 a) \<le> a" and "a < 2 powi (ilog2 a + 1)"
proof -
  have "2 powi (ilog2 a) \<le> a \<and> a < 2 powi (ilog2 a + 1)"
  proof (cases "1 \<le> a")
    case True
    define n where "n = \<lfloor>a\<rfloor>"
    have n1: "1 \<le> n" using True by (simp add: n_def le_floor_iff)
    have b: "2 ^ nat (bitlen n - 1) \<le> n" "n < 2 ^ nat (bitlen n)"
      using bitlen_bounds[of n] n1 by auto
    have bl: "1 \<le> bitlen n" using n1 by (auto simp: bitlen_alt_def)
    have il: "ilog2 a = bitlen n - 1" using True by (simp add: ilog2_def n_def)
    have "(of_int n :: rat) \<le> a" by (simp add: n_def)
    moreover have "a < of_int n + 1" using floor_correct[of a] by (simp add: n_def)
    moreover have "(2::rat) powi (bitlen n - 1) = of_int (2 ^ nat (bitlen n - 1))"
      using bl by (simp add: power_int_def)
    moreover have "(2::rat) powi (bitlen n - 1 + 1) = of_int (2 ^ nat (bitlen n))"
      using bl by (simp add: power_int_def)
    moreover have "(of_int n :: rat) + 1 \<le> of_int (2 ^ nat (bitlen n))"
      using b(2) by (metis of_int_1 of_int_add of_int_le_iff zless_imp_add1_zle)
    moreover have "(of_int (2 ^ nat (bitlen n - 1)) :: rat) \<le> of_int n"
      using b(1) by (simp only: of_int_le_iff)
    ultimately show ?thesis unfolding il by linarith
  next
    case False
    define c where "c = \<lceil>1 / a\<rceil>"
    define n where "n = c - 1"
    have b1: "1 < 1 / a" using False assms by (simp add: field_simps)
    have n1: "1 \<le> n" using b1 by (simp add: n_def c_def less_ceiling_iff)
    have b: "2 ^ nat (bitlen n - 1) \<le> n" "n < 2 ^ nat (bitlen n)"
      using bitlen_bounds[of n] n1 by auto
    have bl: "1 \<le> bitlen n" using n1 by (auto simp: bitlen_alt_def)
    have il: "ilog2 a = - bitlen n" using False by (simp add: ilog2_def n_def c_def)
    have u: "1 / a \<le> of_int c" by (simp add: c_def)
    have l: "of_int n < 1 / a" using ceiling_correct[of "1 / a"] by (simp add: n_def c_def)
    have p1: "(2::rat) powi (- bitlen n) = 1 / of_int (2 ^ nat (bitlen n))"
      using bl by (simp add: power_int_def field_simps)
    have p2: "(2::rat) powi (- bitlen n + 1) = 1 / of_int (2 ^ nat (bitlen n - 1))"
      using bl by (simp add: power_int_def field_simps nat_diff_distrib)
    have "(of_int c :: rat) \<le> of_int (2 ^ nat (bitlen n))"
      using b(2) unfolding n_def by (simp only: of_int_le_iff)
    then have "1 / a \<le> of_int (2 ^ nat (bitlen n))" using u by linarith
    then have A: "1 / of_int (2 ^ nat (bitlen n)) \<le> a"
      using assms by (simp add: field_simps)
    have "(of_int (2 ^ nat (bitlen n - 1)) :: rat) \<le> of_int n"
      using b(1) by (simp only: of_int_le_iff)
    then have "of_int (2 ^ nat (bitlen n - 1)) < 1 / a" using l by linarith
    then have B: "a < 1 / of_int (2 ^ nat (bitlen n - 1))"
      using assms by (simp add: field_simps)
    show ?thesis unfolding il p1 p2 using A B by simp
  qed
  then show "2 powi (ilog2 a) \<le> a" and "a < 2 powi (ilog2 a + 1)" by simp_all
qed

lemma ilog2_unique:
  assumes "2 powi e \<le> a" and "a < 2 powi (e + 1)"
  shows "ilog2 a = e"
proof -
  have pos: "0 < a" using assms(1) by (smt (verit) zero_less_power_int zero_less_numeral less_le_trans)
  note b = ilog2_bounds[OF pos]
  have "(2::rat) powi e < 2 powi (ilog2 a + 1)" using assms(1) b(2) by linarith
  then have 1: "e < ilog2 a + 1"
    using power_int_increasing[of "ilog2 a + 1" e "2::rat"] by (cases "e < ilog2 a + 1") auto
  have "(2::rat) powi (ilog2 a) < 2 powi (e + 1)" using assms(2) b(1) by linarith
  then have 2: "ilog2 a < e + 1"
    using power_int_increasing[of "e + 1" "ilog2 a" "2::rat"] by (cases "ilog2 a < e + 1") auto
  show ?thesis using 1 2 by linarith
qed


lemma rhe_of_int: "rhe (of_int z) = z"
  by (simp add: rhe_def)

lemma rhe_bounds: "of_int (rhe x) \<le> x + 1 / 2" "x - 1 / 2 \<le> of_int (rhe x)"
proof -
  define f where "f = \<lfloor>x\<rfloor>"
  have fl: "of_int f \<le> x" "x < of_int f + 1" using floor_correct[of x] by (auto simp: f_def)
  have r: "rhe x = (if x - of_int f < 1 / 2 then f else if 1 / 2 < x - of_int f then f + 1
        else if even f then f else f + 1)"
    by (simp add: rhe_def Let_def f_def)
  show "of_int (rhe x) \<le> x + 1 / 2" unfolding r using fl by (auto split: if_splits)
  show "x - 1 / 2 \<le> of_int (rhe x)" unfolding r using fl by (auto split: if_splits)
qed

lemma rhe_le: "x \<le> of_int N \<Longrightarrow> rhe x \<le> N"
proof -
  assume "x \<le> of_int N"
  then have "(of_int (rhe x) :: rat) < of_int N + 1" using rhe_bounds(1)[of x] by linarith
  then have "(of_int (rhe x) :: rat) < of_int (N + 1)" by simp
  then have "rhe x < N + 1" by (simp only: of_int_less_iff)
  then show ?thesis by simp
qed

lemma rhe_ge: "of_int N \<le> x \<Longrightarrow> N \<le> rhe x"
proof -
  assume "of_int N \<le> x"
  then have "(of_int N :: rat) - 1 < of_int (rhe x)" using rhe_bounds(2)[of x] by linarith
  then have "(of_int (N - 1) :: rat) < of_int (rhe x)" by simp
  then have "N - 1 < rhe x" by (simp only: of_int_less_iff)
  then show ?thesis by simp
qed

lemma fl_parts_at:
  assumes "2 powi e \<le> a" and "a < 2 powi (e + 1)"
  shows "fl_parts p emin a = (rhe (a / 2 powi (max e emin - int p + 1)), max e emin)"
  using ilog2_unique[OF assms] by (simp add: fl_parts_def Let_def)

lemma fl_parts_props:
  assumes "0 < a" and "fl_parts p emin a = (m, e)"
  shows "emin \<le> e" and "0 \<le> m" and "m \<le> 2 ^ p" and "emin < e \<Longrightarrow> 0 < p \<Longrightarrow> 2 ^ (p - 1) \<le> m"
    and "m = rhe (a / 2 powi (e - int p + 1))"
proof -
  have e: "e = max (ilog2 a) emin" and m: "m = rhe (a / 2 powi (e - int p + 1))"
    using assms(2) by (auto simp: fl_parts_def Let_def)
  show "emin \<le> e" using e by simp
  show "m = rhe (a / 2 powi (e - int p + 1))" by (rule m)
  have u: "0 < (2::rat) powi (e - int p + 1)" by (simp add: zero_less_power_int)
  have "0 \<le> a / 2 powi (e - int p + 1)" using assms(1) u by simp
  then have "of_int 0 \<le> a / 2 powi (e - int p + 1)" by simp
  then show "0 \<le> m" unfolding m by (rule rhe_ge)
  have "a < 2 powi (ilog2 a + 1)" using ilog2_bounds(2)[OF assms(1)] .
  also have "\<dots> \<le> 2 powi (e + 1)" using e by (intro power_int_increasing) auto
  finally have "a < 2 powi (e + 1)" .
  moreover have "(2::rat) powi (e + 1) = 2 powi (e - int p + 1) * 2 ^ p"
    by (simp add: power_int_add[symmetric] flip: power_int_of_nat)
  ultimately have "a / 2 powi (e - int p + 1) < 2 ^ p"
    using u by (simp add: field_simps)
  then have "a / 2 powi (e - int p + 1) \<le> of_int (2 ^ p)" by simp
  then show "m \<le> 2 ^ p" unfolding m by (rule rhe_le)
  show "2 ^ (p - 1) \<le> m" if "emin < e" and "0 < p"
  proof -
    have ee: "e = ilog2 a" using e that by auto
    have "(2::rat) powi e \<le> a" using ilog2_bounds(1)[OF assms(1)] ee by simp
    moreover have "(2::rat) powi e = 2 powi (e - int p + 1) * 2 powi (int p - 1)"
      by (simp add: power_int_add[symmetric])
    ultimately have ge: "2 powi (int p - 1) \<le> a / 2 powi (e - int p + 1)"
      using u by (simp add: field_simps)
    have "(2::rat) powi (int p - 1) = of_int (2 ^ (p - 1))"
      using that(2) by (simp add: power_int_def nat_diff_distrib)
    then have "of_int (2 ^ (p - 1)) \<le> a / 2 powi (e - int p + 1)" using ge by simp
    then show ?thesis unfolding m by (rule rhe_ge)
  qed
qed


lemma fl_round_at:
  assumes "q \<noteq> 0" and "2 powi e \<le> \<bar>q\<bar>" and "\<bar>q\<bar> < 2 powi (e + 1)"
  shows "fl_round p emin emax q =
     (let u = 2 powi (max e emin - int p + 1); r = of_int (rhe (\<bar>q\<bar> / u)) * u
      in if 2 powi (emax + 1) \<le> r then (if q < 0 then NInf else PInf)
         else if r = 0 then (if q < 0 then NZero else Fin 0)
         else Fin (if q < 0 then - r else r))"
  using assms(1) by (simp add: fl_round_def fl_parts_at[OF assms(2,3)] Let_def)

lemma fl_round_exact:
  assumes q: "q = of_int M * 2 powi k" and M: "M \<noteq> 0" "\<bar>M\<bar> < 2 ^ p"
    and k: "emin - int p + 1 \<le> k" and lt: "\<bar>q\<bar> < 2 powi (emax + 1)"
  shows "fl_round p emin emax q = Fin q"
proof -
  define a where "a = \<bar>q\<bar>"
  have pk: "0 < (2::rat) powi k" by (simp add: zero_less_power_int)
  have a: "a = of_int \<bar>M\<bar> * 2 powi k" using pk by (simp add: a_def q abs_mult)
  have apos: "0 < a" using M(1) pk by (simp add: a)
  have q0: "q \<noteq> 0" using apos by (auto simp: a_def)
  obtain m e where me: "fl_parts p emin a = (m, e)" by (cases "fl_parts p emin a")
  note pr = fl_parts_props[OF apos me]
  have e: "e = max (ilog2 a) emin" using me by (auto simp: fl_parts_def Let_def)
  have "(2::rat) powi (ilog2 a) \<le> a" using ilog2_bounds(1)[OF apos] .
  also have "a < 2 ^ p * 2 powi k"
    unfolding a using M(2) pk by (simp add: of_int_less_iff[symmetric] del: of_int_less_iff of_int_abs)
  also have "\<dots> = 2 powi (int p + k)" by (simp add: power_int_add)
  finally have "ilog2 a < int p + k"
    using power_int_increasing[of "int p + k" "ilog2 a" "2::rat"]
    by (cases "ilog2 a < int p + k") auto
  then have dk: "e - int p + 1 \<le> k" using e k by auto
  define d where "d = nat (k - (e - int p + 1))"
  have "(2::rat) powi k = 2 powi (e - int p + 1) * 2 ^ d"
    using dk by (simp add: d_def power_int_add[symmetric] flip: power_int_of_nat)
  then have "a / 2 powi (e - int p + 1) = of_int (\<bar>M\<bar> * 2 ^ d)"
    by (simp add: a zero_less_power_int)
  then have m: "m = \<bar>M\<bar> * 2 ^ d" using pr(5) by (simp only: rhe_of_int)
  have r: "of_int m * 2 powi (e - int p + 1) = a"
    using \<open>(2::rat) powi k = 2 powi (e - int p + 1) * 2 ^ d\<close> by (simp add: m a)
  have "fl_round p emin emax q =
      (if 2 powi (emax + 1) \<le> a then (if q < 0 then NInf else PInf)
       else if a = 0 then (if q < 0 then NZero else Fin 0)
       else Fin (if q < 0 then - a else a))"
    unfolding fl_round_def a_def[symmetric] me using q0 by (simp add: r Let_def)
  also have "\<dots> = Fin (if q < 0 then - a else a)"
    using lt apos by (simp add: a_def[symmetric])
  also have "\<dots> = Fin q" by (simp add: a_def)
  finally show ?thesis .
qed

lemma fl_round_idem:
  assumes "fl_round p emin emax q = Fin r" and "0 < p"
  shows "fl_round p emin emax r = Fin r"
proof (cases "r = 0")
  case True
  then show ?thesis by (simp add: fl_round_def)
next
  case False
  have q0: "q \<noteq> 0" using assms(1) False by (auto simp: fl_round_def)
  then have apos: "0 < \<bar>q\<bar>" by simp
  obtain m e where me: "fl_parts p emin \<bar>q\<bar> = (m, e)" by (cases "fl_parts p emin \<bar>q\<bar>")
  note pr = fl_parts_props[OF apos me]
  define v where "v = of_int m * (2::rat) powi (e - int p + 1)"
  have nov: "\<not> 2 powi (emax + 1) \<le> v" and r: "r = (if q < 0 then - v else v)"
    using assms(1) q0 by (auto simp: fl_round_def me v_def Let_def split: if_splits)
  have v0: "v \<noteq> 0" using r False by (cases "q < 0") auto
  then have m0: "m \<noteq> 0" by (auto simp: v_def)
  then have mpos: "0 < m" using pr(2) by simp
  have vpos: "0 < v" using mpos by (simp add: v_def zero_less_power_int)
  have absr: "\<bar>r\<bar> = v" using r vpos by auto
  have lt: "\<bar>r\<bar> < 2 powi (emax + 1)" using nov absr by simp
  define s :: int where "s = (if q < 0 then - 1 else 1)"
  have rs: "r = of_int (s * m) * 2 powi (e - int p + 1)" by (simp add: r s_def v_def)
  show ?thesis
  proof (cases "m < 2 ^ p")
    case True
    show ?thesis
    proof (rule fl_round_exact[OF rs _ _ _ lt])
      show "s * m \<noteq> 0" using m0 by (simp add: s_def)
      show "\<bar>s * m\<bar> < 2 ^ p" using True mpos by (simp add: s_def abs_mult)
      show "emin - int p + 1 \<le> e - int p + 1" using pr(1) by simp
    qed
  next
    case False
    then have m: "m = 2 ^ p" using pr(3) by simp
    have "(2::rat) ^ p = 2 ^ (p - 1) * 2" using assms(2) by (cases p) auto
    then have rs': "r = of_int (s * 2 ^ (p - 1)) * 2 powi (e - int p + 1 + 1)"
      unfolding rs m by (simp add: power_int_add)
    show ?thesis
    proof (rule fl_round_exact[OF rs' _ _ _ lt])
      show "s * 2 ^ (p - 1) \<noteq> 0" by (simp add: s_def)
      show "\<bar>s * 2 ^ (p - 1)\<bar> < 2 ^ p" using assms(2) by (simp add: s_def abs_mult)
      show "emin - int p + 1 \<le> e - int p + 1 + 1" using pr(1) by simp
    qed
  qed
qed

lemma rhe_eq:
  assumes "of_int m - 1 / 2 < x" and "x < of_int m + 1 / 2"
  shows "rhe x = m"
proof -
  have "(of_int (rhe x) :: rat) < of_int (m + 1)" using rhe_bounds(1)[of x] assms by simp
  then have 1: "rhe x < m + 1" by (simp only: of_int_less_iff)
  have "(of_int (m - 1) :: rat) < of_int (rhe x)" using rhe_bounds(2)[of x] assms by simp
  then have 2: "m - 1 < rhe x" by (simp only: of_int_less_iff)
  show ?thesis using 1 2 by simp
qed

lemma rhe_half: "rhe (of_int n + 1 / 2) = (if even n then n else n + 1)"
proof -
  have "\<lfloor>of_int n + 1 / 2 :: rat\<rfloor> = n" by (simp add: floor_unique)
  then show ?thesis by (simp add: rhe_def Let_def)
qed

lemma fl_round_val:
  assumes "q \<noteq> 0" and "2 powi e \<le> \<bar>q\<bar>" and "\<bar>q\<bar> < 2 powi (e + 1)"
    and "k = max e emin - int p + 1"
    and "(of_int m - 1 / 2) * 2 powi k < \<bar>q\<bar>" and "\<bar>q\<bar> < (of_int m + 1 / 2) * 2 powi k"
  shows "fl_round p emin emax q =
     (if (2::rat) powi (emax + 1) \<le> of_int m * 2 powi k then (if q < 0 then NInf else PInf)
      else if m = 0 then (if q < 0 then NZero else Fin 0)
      else Fin (if q < 0 then - (of_int m * 2 powi k) else of_int m * 2 powi k))"
proof -
  define a where "a = \<bar>q\<bar>"
  define u :: rat where "u = 2 powi k"
  have u: "0 < u" by (simp add: u_def zero_less_power_int)
  have "rhe (a / u) = m"
    using assms(5,6) u unfolding a_def[symmetric] u_def[symmetric]
    by (intro rhe_eq) (simp_all add: field_simps)
  then have "fl_parts p emin a = (m, max e emin)"
    using fl_parts_at[OF assms(2,3), of p emin] by (simp add: a_def u_def assms(4))
  then show ?thesis
    unfolding fl_round_def a_def[symmetric] u_def[symmetric] using assms(1) u
    by (simp add: assms(4)[symmetric] u_def[symmetric] Let_def)
qed


subsection \<open>Values that rounding leaves unchanged\<close>

lemma r64_dyadic:
  assumes "\<bar>M\<bar> < 2 ^ 53" and "- 1074 \<le> k" and "k \<le> 971"
  shows "r64 (of_int M * 2 powi k) = Fin (of_int M * 2 powi k)"
proof (cases "M = 0")
  case True
  then show ?thesis by (simp add: r64_def fl_round_def)
next
  case False
  have pk: "0 < (2::rat) powi k" by (simp add: zero_less_power_int)
  have "\<bar>of_int M * (2::rat) powi k\<bar> = of_int \<bar>M\<bar> * 2 powi k"
    using pk by (simp add: abs_mult)
  also have "\<dots> < 2 ^ 53 * 2 powi k"
    using assms(1) pk by (simp add: of_int_less_iff[symmetric] del: of_int_less_iff of_int_abs)
  also have "\<dots> = 2 powi (53 + k)" by (simp add: power_int_add)
  also have "\<dots> \<le> 2 powi (1023 + 1)" using assms(3) by (intro power_int_increasing) auto
  finally have lt: "\<bar>of_int M * (2::rat) powi k\<bar> < 2 powi (1023 + 1)" .
  show ?thesis unfolding r64_def
    by (rule fl_round_exact[OF refl False _ _ lt]) (use assms in auto)
qed

lemma r64_int: "\<bar>i\<bar> < 2 ^ 53 \<Longrightarrow> r64 (of_int i) = Fin (of_int i)"
  using r64_dyadic[of i 0] by simp

lemma r64_half_int: "\<bar>i\<bar> < 2 ^ 53 \<Longrightarrow> r64 (of_int i / 2) = Fin (of_int i / 2)"
  using r64_dyadic[of i "- 1"] by (simp add: power_int_minus field_simps)


lemma fl_round_not_NaN: "fl_round p emin emax q \<noteq> NaN"
  by (cases "fl_parts p emin \<bar>q\<bar>") (simp add: fl_round_def Let_def)

lemma r64_not_NaN [simp]: "r64 q \<noteq> NaN"
  unfolding r64_def by (rule fl_round_not_NaN)

lemma r64_cases: "r64 q = PInf \<or> r64 q = NInf \<or> r64 q = NZero \<or> (\<exists>r. r64 q = Fin r)"
  using r64_not_NaN[of q] by (cases "r64 q") auto

lemma float_of_int_small: "\<bar>i\<bar> < 2 ^ 53 \<Longrightarrow> float_of_int i = Fin (of_int i)"
  by (simp add: float_of_int_def r64_int)

lemmas float_of_int_20 = float_of_int_small[of 20, simplified]
lemmas float_of_int_0 = float_of_int_small[of 0, simplified]
lemmas float_of_int_255 = float_of_int_small[of 255, simplified]


subsection \<open>The quantizer\<close>

text \<open>
  For every input that is not NaN the scaled value is not NaN either, the clip brings it
  into \<open>[0, 255]\<close>, rounding keeps it there, and the conversion to a byte is exact.
\<close>

lemma np_clip_0_255:
  "x \<noteq> NaN \<Longrightarrow> np_clip x (Fin 0) (Fin 255) = Fin (clip_spec x)"
  by (cases x) (auto simp: np_clip_def flt_def clip_spec_def Let_def)

lemma clip_spec_range: "0 \<le> clip_spec x" "clip_spec x \<le> 255"
  by (auto simp: clip_spec_def)

lemma rhe_clip_range: "0 \<le> rhe (clip_spec x)" "rhe (clip_spec x) \<le> 255"
proof -
  have "of_int 0 \<le> clip_spec x" using clip_spec_range(1)[of x] by simp
  then show "0 \<le> rhe (clip_spec x)" by (rule rhe_ge)
  have "clip_spec x \<le> of_int 255" using clip_spec_range(2)[of x] by simp
  then show "rhe (clip_spec x) \<le> 255" by (rule rhe_le)
qed

lemma trunc0_of_int [simp]: "trunc0 (of_int n) = n"
  by (simp add: trunc0_def)

lemma astype_rint_clip:
  assumes "0 \<le> q" and "q \<le> 255"
  shows "astype_uint8 ub (np_rint (Fin q)) = word_of_int (rhe q)"
proof -
  have "of_int 0 \<le> q" "q \<le> of_int 255" using assms by simp_all
  then have r: "0 \<le> rhe q" "rhe q \<le> 255" by (auto intro: rhe_ge rhe_le)
  show ?thesis
  proof (cases "rhe q = 0")
    case True
    then show ?thesis using assms by (simp add: astype_uint8_def zero_of_def trunc0_def)
  next
    case False
    then show ?thesis using r by (simp add: astype_uint8_def Let_def)
  qed
qed

lemma fmul_not_NaN:
  "is_finite v \<Longrightarrow> fmul v (Fin 20) \<noteq> NaN"
  by (cases v) (auto simp: fmul_def Let_def zero_of_def is_zero_def)

lemma quantize_eq_spec:
  assumes "fmul v (float_of_int sc) \<noteq> NaN"
  shows "quantize ub sc v = word_of_int (quantize_spec v sc)"
  using assms
  by (simp add: quantize_def quantize_spec_def float_of_int_0 float_of_int_255
      np_clip_0_255 astype_rint_clip clip_spec_range del: np_rint.simps)

lemma uint_quantize:
  assumes "fmul v (float_of_int sc) \<noteq> NaN"
  shows "uint (quantize ub sc v) = quantize_spec v sc"
proof -
  have "0 \<le> quantize_spec v sc" "quantize_spec v sc \<le> 255"
    using rhe_clip_range by (simp_all add: quantize_spec_def)
  then show ?thesis
    by (simp add: quantize_eq_spec[OF assms] uint_word_of_int take_bit_int_eq_self_iff)
qed

lemma r64_3_07: "r64 (307 / 100) = Fin (6913025428013711 / 2251799813685248)"
  unfolding r64_def
  by (subst fl_round_val[where e = 1 and m = 6913025428013711 and k = "- 51"]) simp_all

lemma fmul_3_07_20:
  "fmul (Fin (6913025428013711 / 2251799813685248)) (Fin 20)
     = Fin (8641281785017139 / 140737488355328)"
proof -
  have "r64 (6913025428013711 / 2251799813685248 * 20) = Fin (8641281785017139 / 140737488355328)"
    unfolding r64_def
    by (subst fl_round_val[where e = 5 and m = 8641281785017139 and k = "- 47"]) simp_all
  then show ?thesis by (simp add: fmul_def Let_def)
qed

lemma quantize_spec_3_07: "quantize_spec (r64 (307 / 100)) 20 = 61"
proof -
  have "rhe (8641281785017139 / 140737488355328) = 61"
    by (rule rhe_eq) simp_all
  then show ?thesis
    by (simp add: quantize_spec_def float_of_int_20 r64_3_07 fmul_3_07_20 clip_spec_def)
qed

lemma quantize_spec_13: "quantize_spec (Fin 13) 20 = 255"
proof -
  have "r64 (13 * 20) = Fin 260" using r64_int[of 260] by simp
  then have "fmul (Fin 13) (Fin 20) = Fin 260" by (simp add: fmul_def Let_def)
  moreover have "rhe 255 = 255" using rhe_of_int[of 255] by simp
  ultimately show ?thesis
    by (simp add: quantize_spec_def float_of_int_20 clip_spec_def)
qed

lemma quantize_spec_neg1: "quantize_spec (Fin (- 1)) 20 = 0"
proof -
  have "r64 (- 20) = Fin (- 20)" using r64_int[of "- 20"] by simp
  then have "fmul (Fin (- 1)) (Fin 20) = Fin (- 20)" by (simp add: fmul_def Let_def)
  moreover have "rhe 0 = 0" using rhe_of_int[of 0] by simp
  ultimately show ?thesis
    by (simp add: quantize_spec_def float_of_int_20 clip_spec_def)
qed

lemma fmul_20_not_NaN: "is_finite v \<Longrightarrow> fmul v (float_of_int 20) \<noteq> NaN"
  by (simp add: float_of_int_20 fmul_not_NaN)

lemma is_finite_r64_3_07: "is_finite (r64 (307 / 100))"
  by (simp add: r64_3_07)


text \<open>
  C2. For every finite float \<open>v\<close> and the scale 20, the byte the quantizer stores is
  \<open>round(clip(v * 20, 0, 255))\<close>: the product is the float product, the clip is applied to
  it, and the result is rounded half-to-even; the rounded value lies in \<open>[0, 255]\<close>, so the
  conversion to \<open>uint8\<close> does not wrap. The double nearest to 3.07 quantizes to 61, 13.0
  to 255 and -1.0 to 0.
\<close>

theorem quantize_round_clip:
  "(is_finite v \<longrightarrow>
      uint (quantize ub 20 v) = quantize_spec v 20
      \<and> 0 \<le> quantize_spec v 20 \<and> quantize_spec v 20 \<le> 255)
   \<and> quantize ub 20 (r64 (307 / 100)) = 61
   \<and> quantize ub 20 (Fin 13) = 255
   \<and> quantize ub 20 (Fin (- 1)) = 0"
proof (intro conjI impI)
  assume v: "is_finite v"
  show "uint (quantize ub 20 v) = quantize_spec v 20"
    by (rule uint_quantize[OF fmul_20_not_NaN[OF v]])
  show "0 \<le> quantize_spec v 20" "quantize_spec v 20 \<le> 255"
    using rhe_clip_range by (simp_all add: quantize_spec_def)
next
  show "quantize ub 20 (r64 (307 / 100)) = 61"
    using quantize_eq_spec[OF fmul_20_not_NaN[OF is_finite_r64_3_07], of ub]
    by (simp add: quantize_spec_3_07)
  show "quantize ub 20 (Fin 13) = 255"
    using quantize_eq_spec[OF fmul_20_not_NaN, of "Fin 13" ub]
    by (simp add: quantize_spec_13)
  show "quantize ub 20 (Fin (- 1)) = 0"
    using quantize_eq_spec[OF fmul_20_not_NaN, of "Fin (- 1)" ub]
    by (simp add: quantize_spec_neg1)
qed

theorem quantize_round_clip_witness:
  "is_finite (r64 (307 / 100))
   \<and> uint (quantize (\<lambda>x. 0) 20 (r64 (307 / 100))) = 61
   \<and> quantize_spec (r64 (307 / 100)) 20 = 61"
  using quantize_round_clip[of "r64 (307 / 100)" "\<lambda>x. 0"]
  by (simp add: is_finite_r64_3_07 quantize_spec_3_07)


lemma quantize_PInf: "quantize ub 20 PInf = 255"
proof -
  have "fmul PInf (float_of_int 20) = PInf"
    by (simp add: float_of_int_20 fmul_def is_zero_def inf_of_def)
  moreover have "rhe 255 = 255" using rhe_of_int[of 255] by simp
  ultimately show ?thesis
    using quantize_eq_spec[of PInf 20 ub] by (simp add: quantize_spec_def clip_spec_def)
qed

lemma quantize_NInf: "quantize ub 20 NInf = 0"
proof -
  have "fmul NInf (float_of_int 20) = NInf"
    by (simp add: float_of_int_20 fmul_def is_zero_def inf_of_def)
  moreover have "rhe 0 = 0" using rhe_of_int[of 0] by simp
  ultimately show ?thesis
    using quantize_eq_spec[of NInf 20 ub] by (simp add: quantize_spec_def clip_spec_def)
qed

lemma quantize_NaN: "quantize ub sc NaN = ub NaN"
  by (simp add: quantize_def fmul_def np_clip_def astype_uint8_def)


text \<open>
  C8 (amended). The quantizer signals no failure for a non-finite input: it has no check
  of its input. It saturates an infinity, \<open>+\<infinity>\<close> to 255 and \<open>-\<infinity>\<close> to 0, and for NaN
  it stores the byte that the platform's conversion of NaN to \<open>uint8\<close> yields. The claim
  as stated, a failure \<open>InvalidValue\<close> for every non-finite input, is refuted by
  \<open>quantize_nonfinite_counterexample\<close>.
\<close>

theorem quantize_nonfinite:
  "quantize ub 20 PInf = 255 \<and> quantize ub 20 NInf = 0 \<and> quantize ub 20 NaN = ub NaN"
  by (simp add: quantize_PInf quantize_NInf quantize_NaN)

theorem quantize_nonfinite_counterexample:
  "(\<forall>ub. quantize ub 20 PInf = 255) \<and> (\<forall>ub. quantize ub 20 NInf = 0)"
  by (simp add: quantize_PInf quantize_NInf)


subsection \<open>Grid geometry\<close>

text \<open>
  \<open>linspace\<close> returns as many samples as it is asked for and stores \<open>stop\<close> as the last of
  two or more; \<open>centers\<close> fails exactly when the step is zero, when the quotient cannot
  be rounded to an integer, or when the rounded count is negative.
\<close>

lemma np_linspace_neg: "n < 0 \<Longrightarrow> np_linspace a b n = Inl ValueError"
  by (simp add: np_linspace_def)

lemma np_linspace_length: "np_linspace a b n = Inr ys \<Longrightarrow> length ys = nat n"
  by (auto simp: np_linspace_def Let_def split: if_splits)


lemma np_linspace_0: "np_linspace a b 0 = Inr []"
  by (simp add: np_linspace_def Let_def)

lemma np_linspace_last:
  assumes "np_linspace a b n = Inr ys" and "1 < n"
  shows "last ys = b"
proof -
  obtain zs where zs: "ys = zs[nat n - 1 := b]" "length zs = nat n"
    using assms by (auto simp: np_linspace_def Let_def split: if_splits)
  have "ys \<noteq> []" using zs assms(2) by auto
  then have "last ys = ys ! (length ys - 1)" by (rule last_conv_nth)
  also have "\<dots> = b" using zs assms(2) by simp
  finally show ?thesis .
qed

lemma centers_eq:
  "centers vmin vmax dv =
     (if is_zero dv then Inl ZeroDivisionError
      else case py_round (fdiv (fsub vmax vmin) dv) of
             Inl e \<Rightarrow> Inl e
           | Inr n \<Rightarrow>
               (case np_linspace (fadd vmin (fdiv dv (Fin 2))) (fsub vmax (fdiv dv (Fin 2))) n of
                  Inl e \<Rightarrow> Inl e
                | Inr c \<Rightarrow> Inr (c, n)))"
  by (simp add: centers_def bind_def py_truediv_def split: sum.splits)

lemma centers_Inr_iff:
  "centers vmin vmax dv = Inr (c, n) \<longleftrightarrow>
     \<not> is_zero dv \<and> py_round (fdiv (fsub vmax vmin) dv) = Inr n \<and> 0 \<le> n
     \<and> np_linspace (fadd vmin (fdiv dv (Fin 2))) (fsub vmax (fdiv dv (Fin 2))) n = Inr c"
  by (auto simp: centers_eq np_linspace_neg split: sum.splits)
     (metis np_linspace_neg not_le sum.distinct(1))

lemma centers_count_neg:
  "\<not> is_zero dv \<Longrightarrow> py_round (fdiv (fsub vmax vmin) dv) = Inr n \<Longrightarrow> n < 0
     \<Longrightarrow> centers vmin vmax dv = Inl ValueError"
  by (simp add: centers_eq np_linspace_neg)

lemma centers_count_0:
  "\<not> is_zero dv \<Longrightarrow> py_round (fdiv (fsub vmax vmin) dv) = Inr 0
     \<Longrightarrow> centers vmin vmax dv = Inr ([], 0)"
  by (simp add: centers_eq np_linspace_0)

lemma build_grid_lat_fails:
  "centers (LAT_MIN cfg) (LAT_MAX cfg) (DLAT cfg) = Inl e \<Longrightarrow> build_grid cfg ub prov = ([], Inl e)"
  by (simp add: build_grid_def)

lemma build_grid_lon_fails:
  "centers (LAT_MIN cfg) (LAT_MAX cfg) (DLAT cfg) = Inr r
   \<Longrightarrow> centers (LON_MIN cfg) (LON_MAX cfg) (DLON cfg) = Inl e
   \<Longrightarrow> build_grid cfg ub prov = ([], Inl e)"
  by (cases r) (simp add: build_grid_def)


lemma floor_rat_numeral_div:
  "\<lfloor>numeral a / numeral b :: rat\<rfloor> = numeral a div numeral b"
  using floor_divide_of_int_eq[of "numeral a" "numeral b", where ?'a = rat] by simp

lemma floor_rat_neg_numeral_div:
  "\<lfloor>- (numeral a / numeral b) :: rat\<rfloor> = - numeral a div numeral b"
  using floor_divide_of_int_eq[of "- numeral a" "numeral b", where ?'a = rat] by simp

lemma floor_rat_one_div: "\<lfloor>1 / numeral b :: rat\<rfloor> = 1 div numeral b"
  using floor_divide_of_int_eq[of 1 "numeral b", where ?'a = rat] by simp

lemma floor_rat_neg_1: "\<lfloor>- 1 :: rat\<rfloor> = - 1"
  using floor_of_int[of "- 1", where ?'a = rat] by simp

lemmas rhe_eval = rhe_def floor_rat_numeral_div floor_rat_neg_numeral_div floor_rat_one_div
  floor_rat_neg_1

lemma r64_numeral: "(numeral n :: int) < 2 ^ 53 \<Longrightarrow> r64 (numeral n) = Fin (numeral n)"
  using r64_int[of "numeral n"] by simp

lemma r64_neg_numeral:
  "(numeral n :: int) < 2 ^ 53 \<Longrightarrow> r64 (- numeral n) = Fin (- numeral n)"
  using r64_int[of "- numeral n"] by simp

lemma r64_0: "r64 0 = Fin 0" using r64_int[of 0] by simp

lemma r64_1: "r64 1 = Fin 1" using r64_int[of 1] by simp

lemma r64_numeral_half:
  "(numeral n :: int) < 2 ^ 53 \<Longrightarrow> r64 (numeral n / 2) = Fin (numeral n / 2)"
  using r64_half_int[of "numeral n"] by simp

lemma r64_neg_numeral_half:
  "(numeral n :: int) < 2 ^ 53 \<Longrightarrow> r64 (- (numeral n / 2)) = Fin (- (numeral n / 2))"
  using r64_half_int[of "- numeral n"] by simp

lemma r64_one_half: "r64 (1 / 2) = Fin (1 / 2)"
  using r64_half_int[of 1] by simp

lemma r64_numeral_quarter:
  "(numeral n :: int) < 2 ^ 53 \<Longrightarrow> r64 (numeral n / 4) = Fin (numeral n / 4)"
  using r64_dyadic[of "numeral n" "- 2"] by (simp add: power_int_minus field_simps)

lemma r64_one_quarter: "r64 (1 / 4) = Fin (1 / 4)"
  using r64_dyadic[of 1 "- 2"] by (simp add: power_int_minus field_simps)

lemma r64_neg_1: "r64 (- 1) = Fin (- 1)" using r64_int[of "- 1"] by simp

lemma r64_neg_one_half: "r64 (- (1 / 2)) = Fin (- (1 / 2))"
  using r64_half_int[of "- 1"] by simp

lemmas r64_eval = r64_numeral r64_neg_numeral r64_0 r64_1 r64_neg_1 r64_numeral_half
  r64_neg_numeral_half r64_one_half r64_neg_one_half r64_numeral_quarter r64_one_quarter

lemmas float_eval = fadd_def fsub_def fmul_def fdiv_def is_zero_def zero_of_def inf_of_def
  py_round_def float_of_int_def Let_def

lemma centers_0_quarter_1: "centers (Fin 0) (Fin (1 / 4)) (Fin 1) = Inr ([], 0)"
proof -
  have "py_round (fdiv (fsub (Fin (1 / 4)) (Fin 0)) (Fin 1)) = Inr 0"
    by (simp add: float_eval r64_eval rhe_eval)
  then show ?thesis by (intro centers_count_0) (simp_all add: is_zero_def)
qed

lemma centers_0_neg1_1: "centers (Fin 0) (Fin (- 1)) (Fin 1) = Inl ValueError"
proof -
  have "py_round (fdiv (fsub (Fin (- 1)) (Fin 0)) (Fin 1)) = Inr (- 1)"
    by (simp add: float_eval r64_eval rhe_eval)
  then show ?thesis by (intro centers_count_neg[where n = "- 1"]) (simp_all add: is_zero_def)
qed

lemma upt_1: "[0..<Suc 0] = [0]" by simp

lemma centers_0_5q_1: "centers (Fin 0) (Fin (5 / 4)) (Fin 1) = Inr ([Fin (1 / 2)], 1)"
proof -
  have 1: "py_round (fdiv (fsub (Fin (5 / 4)) (Fin 0)) (Fin 1)) = Inr 1"
    by (simp add: float_eval r64_eval rhe_eval)
  have 2: "fadd (Fin 0) (fdiv (Fin 1) (Fin 2)) = Fin (1 / 2)"
    by (simp add: float_eval r64_eval)
  have 3: "fsub (Fin (5 / 4)) (fdiv (Fin 1) (Fin 2)) = Fin (3 / 4)"
    by (simp add: float_eval r64_eval)
  have 4: "np_linspace (Fin (1 / 2)) (Fin (3 / 4)) 1 = Inr [Fin (1 / 2)]"
    by (simp add: np_linspace_def float_eval r64_eval)
  show ?thesis by (simp add: centers_eq is_zero_def 1 2 3 4)
qed

lemma centers_0_5h_1: "centers (Fin 0) (Fin (5 / 2)) (Fin 1) = Inr ([Fin (1 / 2), Fin 2], 2)"
proof -
  have 1: "py_round (fdiv (fsub (Fin (5 / 2)) (Fin 0)) (Fin 1)) = Inr 2"
    by (simp add: float_eval r64_eval rhe_eval)
  have 2: "fadd (Fin 0) (fdiv (Fin 1) (Fin 2)) = Fin (1 / 2)"
    by (simp add: float_eval r64_eval)
  have 3: "fsub (Fin (5 / 2)) (fdiv (Fin 1) (Fin 2)) = Fin 2"
    by (simp add: float_eval r64_eval)
  have u: "[0..<2] = [0, Suc 0]" by (simp add: upt_rec)
  have 4: "np_linspace (Fin (1 / 2)) (Fin 2) 2 = Inr [Fin (1 / 2), Fin 2]"
    by (simp add: np_linspace_def u float_eval r64_eval)
  show ?thesis by (simp add: centers_eq is_zero_def 1 2 3 4)
qed

lemma linspace_unit_grid:
  fixes a :: int and N :: nat
  assumes odd: "odd a" and N: "2 \<le> N" and small: "\<bar>a\<bar> + 2 * int N < 2 ^ 53"
  shows "np_linspace (Fin (of_int a / 2)) (Fin (of_int a / 2 + of_nat (N - 1))) (int N)
           = Inr (map (\<lambda>k. Fin (of_int a / 2 + of_nat k)) [0..<N])"
proof -
  define D :: rat where "D = of_nat (N - 1)"
  define start where "start = Fin (of_int a / 2)"
  define stop where "stop = Fin (of_int a / 2 + D)"
  have a0: "(of_int a :: rat) / 2 \<noteq> 0" using odd by auto
  have "\<bar>int (N - 1)\<bar> < 2 ^ 53" using small by linarith
  from r64_int[OF this] have rN: "r64 D = Fin D"
    by (simp only: of_int_of_nat_eq D_def)
  have N1: "D \<noteq> 0" using N by (simp add: D_def)
  have delta: "fsub stop start = Fin D"
    using a0 N1 by (simp add: fsub_def fadd_def start_def stop_def Let_def rN)
  have "(of_int (int N - 1) :: rat) = D" using N by (simp add: D_def of_nat_diff)
  then have dv: "float_of_int (int N - 1) = Fin D"
    using rN by (simp only: float_of_int_def)
  have step: "fdiv (Fin D) (Fin D) = Fin 1"
    using N1 by (simp add: fdiv_def is_zero_def r64_1)
  have elem: "fadd (fmul (float_of_int (int k)) (Fin 1)) start = Fin (of_int a / 2 + of_nat k)"
    if "k < N" for k
  proof -
    have "\<bar>int k\<bar> < 2 ^ 53" using small that by linarith
    from r64_int[OF this] have k: "r64 (of_nat k) = Fin (of_nat k)"
      by (simp only: of_int_of_nat_eq)
    have m: "fmul (float_of_int (int k)) (Fin 1) = Fin (of_nat k)"
      by (simp add: float_of_int_def k fmul_def Let_def zero_of_def)
    have "odd (a + 2 * int k)" using odd by simp
    then have nz: "(of_nat k :: rat) + of_int a / 2 \<noteq> 0"
    proof -
      have "(of_nat k :: rat) + of_int a / 2 = of_int (a + 2 * int k) / 2" by simp
      moreover have "(of_int (a + 2 * int k) :: rat) \<noteq> 0"
        using \<open>odd (a + 2 * int k)\<close> by (metis even_zero of_int_eq_0_iff)
      ultimately show ?thesis by simp
    qed
    have "r64 (of_int (a + 2 * int k) / 2) = Fin (of_int (a + 2 * int k) / 2)"
      using small that by (intro r64_half_int) linarith
    moreover have "(of_int (a + 2 * int k) :: rat) / 2 = of_nat k + of_int a / 2"
      by (simp add: field_simps)
    ultimately have "r64 (of_nat k + of_int a / 2) = Fin (of_int a / 2 + of_nat k)"
      by (simp only: add.commute)
    then show ?thesis using nz by (simp add: m fadd_def start_def Let_def)
  qed
  have "np_linspace start stop (int N)
      = Inr ((map (\<lambda>x. fadd x start) (map (\<lambda>x. fmul x (Fin 1))
              (map (\<lambda>k. float_of_int (int k)) [0..<N])))[N - 1 := stop])"
    using N by (simp add: np_linspace_def Let_def delta dv step is_zero_def)
  also have "(map (\<lambda>x. fadd x start) (map (\<lambda>x. fmul x (Fin 1))
              (map (\<lambda>k. float_of_int (int k)) [0..<N])))[N - 1 := stop]
      = map (\<lambda>k. Fin (of_int a / 2 + of_nat k)) [0..<N]"
  proof (rule nth_equalityI)
    show "length ((map (\<lambda>x. fadd x start) (map (\<lambda>x. fmul x (Fin 1))
              (map (\<lambda>k. float_of_int (int k)) [0..<N])))[N - 1 := stop])
        = length (map (\<lambda>k. Fin (of_int a / 2 + of_nat k)) [0..<N])" by simp
  next
    fix i
    assume "i < length ((map (\<lambda>x. fadd x start) (map (\<lambda>x. fmul x (Fin 1))
              (map (\<lambda>k. float_of_int (int k)) [0..<N])))[N - 1 := stop])"
    then have i: "i < N" by simp
    show "(map (\<lambda>x. fadd x start) (map (\<lambda>x. fmul x (Fin 1))
              (map (\<lambda>k. float_of_int (int k)) [0..<N])))[N - 1 := stop] ! i
        = map (\<lambda>k. Fin (of_int a / 2 + of_nat k)) [0..<N] ! i"
      using i elem[OF i] by (auto simp: nth_list_update stop_def D_def)
  qed
  finally show ?thesis by (simp add: start_def stop_def D_def)
qed

lemma centers_lat_axis:
  "centers (Fin (- 65)) (Fin 65) (Fin 1)
     = Inr (map (\<lambda>k. Fin (- (129 / 2) + of_nat k)) [0..<130], 130)"
proof -
  have 1: "py_round (fdiv (fsub (Fin 65) (Fin (- 65))) (Fin 1)) = Inr 130"
    using rhe_of_int[of 130] by (simp add: float_eval r64_eval)
  have 2: "fadd (Fin (- 65)) (fdiv (Fin 1) (Fin 2)) = Fin (- (129 / 2))"
    by (simp add: float_eval r64_eval)
  have 3: "fsub (Fin 65) (fdiv (Fin 1) (Fin 2)) = Fin (129 / 2)"
    by (simp add: float_eval r64_eval)
  have 4: "np_linspace (Fin (- (129 / 2))) (Fin (129 / 2)) 130
      = Inr (map (\<lambda>k. Fin (- (129 / 2) + of_nat k)) [0..<130])"
    using linspace_unit_grid[of "- 129" 130] by simp
  show ?thesis by (simp add: centers_eq is_zero_def 1 2 3 4)
qed

lemma centers_lon_axis:
  "centers (Fin (- 180)) (Fin 180) (Fin 1)
     = Inr (map (\<lambda>k. Fin (- (359 / 2) + of_nat k)) [0..<360], 360)"
proof -
  have 1: "py_round (fdiv (fsub (Fin 180) (Fin (- 180))) (Fin 1)) = Inr 360"
    using rhe_of_int[of 360] by (simp add: float_eval r64_eval)
  have 2: "fadd (Fin (- 180)) (fdiv (Fin 1) (Fin 2)) = Fin (- (359 / 2))"
    by (simp add: float_eval r64_eval)
  have 3: "fsub (Fin 180) (fdiv (Fin 1) (Fin 2)) = Fin (359 / 2)"
    by (simp add: float_eval r64_eval)
  have 4: "np_linspace (Fin (- (359 / 2))) (Fin (359 / 2)) 360
      = Inr (map (\<lambda>k. Fin (- (359 / 2) + of_nat k)) [0..<360])"
    using linspace_unit_grid[of "- 359" 360] by simp
  show ?thesis by (simp add: centers_eq is_zero_def 1 2 3 4)
qed


lemma build_grid_no_lats:
  assumes "centers (LAT_MIN cfg) (LAT_MAX cfg) (DLAT cfg) = Inr ([], n)"
    and "centers (LON_MIN cfg) (LON_MAX cfg) (DLON cfg) = Inr (lons, k)"
  shows "build_grid cfg ub prov = ([], Inl IndexError)"
  using assms by (simp add: build_grid_def enumerate_list_def item0_def bind_def Let_def)

lemma np_linspace_1:
  "np_linspace a b 1 = Inr [fadd (fmul (Fin 0) (fsub b a)) a]"
  by (simp add: np_linspace_def Let_def float_of_int_def r64_0)


text \<open>
  C9. \<open>centers(-65, 65, 1)\<close> returns 130 values, the first -64.5 and the last 64.5, and
  \<open>centers(-180, 180, 1)\<close> returns 360 values, the first -179.5.
\<close>

theorem centers_script_axes:
  "(\<exists>lats. centers (Fin (- 65)) (Fin 65) (Fin 1) = Inr (lats, 130)
        \<and> length lats = 130 \<and> hd lats = Fin (- (129 / 2)) \<and> last lats = Fin (129 / 2))
   \<and> (\<exists>lons. centers (Fin (- 180)) (Fin 180) (Fin 1) = Inr (lons, 360)
        \<and> length lons = 360 \<and> hd lons = Fin (- (359 / 2)))"
proof (intro conjI exI)
  show "centers (Fin (- 65)) (Fin 65) (Fin 1)
     = Inr (map (\<lambda>k. Fin (- (129 / 2) + of_nat k)) [0..<130], 130)"
    by (rule centers_lat_axis)
  show "centers (Fin (- 180)) (Fin 180) (Fin 1)
     = Inr (map (\<lambda>k. Fin (- (359 / 2) + of_nat k)) [0..<360], 360)"
    by (rule centers_lon_axis)
  show "length (map (\<lambda>k. Fin (- (129 / 2) + of_nat k)) [0..<130]) = 130" by simp
  show "length (map (\<lambda>k. Fin (- (359 / 2) + of_nat k)) [0..<360]) = 360" by simp
  show "hd (map (\<lambda>k. Fin (- (129 / 2) + of_nat k)) [0..<130]) = Fin (- (129 / 2))"
    by (simp add: hd_map upt_rec[of 0 130])
  show "hd (map (\<lambda>k. Fin (- (359 / 2) + of_nat k)) [0..<360]) = Fin (- (359 / 2))"
    by (simp add: hd_map upt_rec[of 0 360])
  show "last (map (\<lambda>k. Fin (- (129 / 2) + of_nat k)) [0..<130]) = Fin (129 / 2)"
    by (simp add: last_map)
qed

text \<open>
  C7 (amended). When the count \<open>round((max - min) / step)\<close> is negative, \<open>centers\<close> fails,
  with the \<open>ValueError\<close> that \<open>linspace\<close> raises, and \<open>build_grid\<close> fails with the
  exception of \<open>centers\<close> before any call of the sampler, for either axis. When the count
  is zero \<open>centers\<close> does not fail: it returns the empty sequence and the count 0; for an
  empty latitude axis \<open>build_grid\<close> then makes no call of the sampler and fails with
  \<open>IndexError\<close> when it reads the first latitude. The claim as stated, a failure of
  \<open>centers\<close> for every count \<open>\<le> 0\<close>, is refuted by \<open>centers_zero_count_counterexample\<close>.
\<close>

theorem centers_nonpositive_count:
  "(\<not> is_zero dv \<and> py_round (fdiv (fsub vmax vmin) dv) = Inr n \<and> n < 0
      \<longrightarrow> centers vmin vmax dv = Inl ValueError)
   \<and> (\<not> is_zero dv \<and> py_round (fdiv (fsub vmax vmin) dv) = Inr 0
      \<longrightarrow> centers vmin vmax dv = Inr ([], 0))
   \<and> (centers (LAT_MIN cfg) (LAT_MAX cfg) (DLAT cfg) = Inl e
      \<longrightarrow> build_grid cfg ub prov = ([], Inl e))
   \<and> (centers (LAT_MIN cfg) (LAT_MAX cfg) (DLAT cfg) = Inr r
        \<and> centers (LON_MIN cfg) (LON_MAX cfg) (DLON cfg) = Inl e
      \<longrightarrow> build_grid cfg ub prov = ([], Inl e))
   \<and> (centers (LAT_MIN cfg) (LAT_MAX cfg) (DLAT cfg) = Inr ([], 0)
        \<and> centers (LON_MIN cfg) (LON_MAX cfg) (DLON cfg) = Inr (lons, k)
      \<longrightarrow> build_grid cfg ub prov = ([], Inl IndexError))"
  using centers_count_neg[of dv vmax vmin n] centers_count_0[of dv vmax vmin]
    build_grid_lat_fails[of cfg e ub prov] build_grid_lon_fails[of cfg r e ub prov]
    build_grid_no_lats[of cfg 0 lons k ub prov]
  by blast

theorem centers_nonpositive_count_witness:
  "centers (Fin 0) (Fin (- 1)) (Fin 1) = Inl ValueError
   \<and> centers (Fin 0) (Fin (1 / 4)) (Fin 1) = Inr ([], 0)
   \<and> build_grid \<lparr>LAT_MIN = Fin 0, LAT_MAX = Fin (- 1), DLAT = Fin 1,
         LON_MIN = Fin 0, LON_MAX = Fin (5 / 2), DLON = Fin 1, SCALE = 20\<rparr>
        (\<lambda>x. 0) (\<lambda>sh ms la lo. Inr []) = ([], Inl ValueError)
   \<and> build_grid \<lparr>LAT_MIN = Fin 0, LAT_MAX = Fin (1 / 4), DLAT = Fin 1,
         LON_MIN = Fin 0, LON_MAX = Fin (5 / 2), DLON = Fin 1, SCALE = 20\<rparr>
        (\<lambda>x. 0) (\<lambda>sh ms la lo. Inr []) = ([], Inl IndexError)"
proof -
  have 1: "\<not> is_zero (Fin 1)" by (simp add: is_zero_def)
  have 2: "py_round (fdiv (fsub (Fin (- 1)) (Fin 0)) (Fin 1)) = Inr (- 1)"
    by (simp add: float_eval r64_eval rhe_eval)
  have 3: "py_round (fdiv (fsub (Fin (1 / 4)) (Fin 0)) (Fin 1)) = Inr 0"
    by (simp add: float_eval r64_eval rhe_eval)
  have a: "centers (Fin 0) (Fin (- 1)) (Fin 1) = Inl ValueError"
    using centers_nonpositive_count[of "Fin 1" "Fin (- 1)" "Fin 0" "- 1"] 1 2 by simp
  have b: "centers (Fin 0) (Fin (1 / 4)) (Fin 1) = Inr ([], 0)"
    using centers_nonpositive_count[of "Fin 1" "Fin (1 / 4)" "Fin 0"] 1 3 by simp
  have c: "build_grid \<lparr>LAT_MIN = Fin 0, LAT_MAX = Fin (- 1), DLAT = Fin 1,
         LON_MIN = Fin 0, LON_MAX = Fin (5 / 2), DLON = Fin 1, SCALE = 20\<rparr>
        (\<lambda>x. 0) (\<lambda>sh ms la lo. Inr []) = ([], Inl ValueError)"
    using centers_nonpositive_count[of _ _ _ _ "\<lparr>LAT_MIN = Fin 0, LAT_MAX = Fin (- 1),
         DLAT = Fin 1, LON_MIN = Fin 0, LON_MAX = Fin (5 / 2), DLON = Fin 1, SCALE = 20\<rparr>"
         ValueError "\<lambda>x. 0" "\<lambda>sh ms la lo. Inr []"] a
    by simp
  have d: "build_grid \<lparr>LAT_MIN = Fin 0, LAT_MAX = Fin (1 / 4), DLAT = Fin 1,
         LON_MIN = Fin 0, LON_MAX = Fin (5 / 2), DLON = Fin 1, SCALE = 20\<rparr>
        (\<lambda>x. 0) (\<lambda>sh ms la lo. Inr []) = ([], Inl IndexError)"
    using centers_nonpositive_count[of _ _ _ _ "\<lparr>LAT_MIN = Fin 0, LAT_MAX = Fin (1 / 4),
         DLAT = Fin 1, LON_MIN = Fin 0, LON_MAX = Fin (5 / 2), DLON = Fin 1, SCALE = 20\<rparr>"
         _ "\<lambda>x. 0" "\<lambda>sh ms la lo. Inr []" _ "[Fin (1 / 2), Fin 2]" 2] b centers_0_5h_1
    by simp
  show ?thesis using a b c d by simp
qed


theorem centers_zero_count_counterexample:
  "py_round (fdiv (fsub (Fin (1 / 4)) (Fin 0)) (Fin 1)) = Inr 0
   \<and> centers (Fin 0) (Fin (1 / 4)) (Fin 1) = Inr ([], 0)"
proof -
  have "py_round (fdiv (fsub (Fin (1 / 4)) (Fin 0)) (Fin 1)) = Inr 0"
    by (simp add: float_eval r64_eval rhe_eval)
  then show ?thesis by (simp add: centers_0_quarter_1)
qed


text \<open>
  C10 (amended). When the count \<open>round((max - min) / step)\<close> is at least 2, the last
  element of the sequence is \<open>max - step/2\<close> exactly, whether or not \<open>(max - min) / step\<close> is
  an integer: \<open>linspace\<close> stores its \<open>stop\<close> argument as the last sample. When the count is
  1 the only element is the first sample \<open>0 * (stop - start) + start\<close> with
  \<open>start = min + step/2\<close>, which is not \<open>max - step/2\<close> in general
  (\<open>centers_last_counterexample\<close>: \<open>centers(0, 1.25, 1)\<close> is \<open>[0.5]\<close>, and
  \<open>max - step/2\<close> is 0.75).
\<close>

theorem centers_last:
  "(centers vmin vmax dv = Inr (c, n) \<and> 2 \<le> n
      \<longrightarrow> length c = nat n \<and> last c = fsub vmax (fdiv dv (Fin 2)))
   \<and> (centers vmin vmax dv = Inr (c, 1)
      \<longrightarrow> c = [fadd (fmul (Fin 0)
                   (fsub (fsub vmax (fdiv dv (Fin 2))) (fadd vmin (fdiv dv (Fin 2)))))
                 (fadd vmin (fdiv dv (Fin 2)))])"
proof (intro conjI impI)
  assume h: "centers vmin vmax dv = Inr (c, n) \<and> 2 \<le> n"
  then have l: "np_linspace (fadd vmin (fdiv dv (Fin 2))) (fsub vmax (fdiv dv (Fin 2))) n = Inr c"
    by (simp add: centers_Inr_iff)
  show "length c = nat n" using l by (rule np_linspace_length)
  show "last c = fsub vmax (fdiv dv (Fin 2))" using l h by (intro np_linspace_last) auto
next
  assume "centers vmin vmax dv = Inr (c, 1)"
  then show "c = [fadd (fmul (Fin 0)
                   (fsub (fsub vmax (fdiv dv (Fin 2))) (fadd vmin (fdiv dv (Fin 2)))))
                 (fadd vmin (fdiv dv (Fin 2)))]"
    by (simp add: centers_Inr_iff np_linspace_1)
qed

theorem centers_last_witness:
  "centers (Fin 0) (Fin (5 / 2)) (Fin 1) = Inr ([Fin (1 / 2), Fin 2], 2)
   \<and> last [Fin (1 / 2), Fin 2] = fsub (Fin (5 / 2)) (fdiv (Fin 1) (Fin 2))
   \<and> centers (Fin 0) (Fin (5 / 4)) (Fin 1) = Inr ([Fin (1 / 2)], 1)
   \<and> [Fin (1 / 2)] = [fadd (fmul (Fin 0)
         (fsub (fsub (Fin (5 / 4)) (fdiv (Fin 1) (Fin 2))) (fadd (Fin 0) (fdiv (Fin 1) (Fin 2)))))
         (fadd (Fin 0) (fdiv (Fin 1) (Fin 2)))]"
  using centers_last[of "Fin 0" "Fin (5 / 2)" "Fin 1" "[Fin (1 / 2), Fin 2]" 2]
    centers_last[of "Fin 0" "Fin (5 / 4)" "Fin 1" "[Fin (1 / 2)]" 2]
    centers_0_5h_1 centers_0_5q_1
  by simp

theorem centers_last_counterexample:
  "py_round (fdiv (fsub (Fin (5 / 4)) (Fin 0)) (Fin 1)) = Inr 1
   \<and> centers (Fin 0) (Fin (5 / 4)) (Fin 1) = Inr ([Fin (1 / 2)], 1)
   \<and> fsub (Fin (5 / 4)) (fdiv (Fin 1) (Fin 2)) = Fin (3 / 4)
   \<and> last [Fin (1 / 2)] \<noteq> Fin (3 / 4)"
proof -
  have "py_round (fdiv (fsub (Fin (5 / 4)) (Fin 0)) (Fin 1)) = Inr 1"
    by (simp add: float_eval r64_eval rhe_eval)
  moreover have "fsub (Fin (5 / 4)) (fdiv (Fin 1) (Fin 2)) = Fin (3 / 4)"
    by (simp add: float_eval r64_eval)
  ultimately show ?thesis by (simp add: centers_0_5q_1)
qed

subsection \<open>The binary encoder\<close>

text \<open>
  Bytes and integers: \<open>le_int\<close> reads back what \<open>le_bytes\<close> wrote. The header fails exactly
  when a field does not fit, and otherwise is \<open>layout\<close>.
\<close>

lemma upt_0_2: "[0..<2] = [0, 1]" by code_simp

lemma upt_0_4: "[0..<4] = [0, 1, 2, 3]" by code_simp

lemma le_bytes_1: "le_bytes 1 w = [word_of_int w]"
  by (simp add: le_bytes_def)

lemma le_bytes_2: "le_bytes 2 w = [word_of_int w, word_of_int (w div 256)]"
  by (simp add: le_bytes_def upt_0_2)

lemma le_bytes_4:
  "le_bytes 4 w = [word_of_int w, word_of_int (w div 256), word_of_int (w div 65536),
                   word_of_int (w div 16777216)]"
  by (simp add: le_bytes_def upt_0_4)

lemma length_le_bytes [simp]: "length (le_bytes n w) = n"
  by (simp add: le_bytes_def)

lemma uint_byte: "uint (word_of_int w :: 8 word) = w mod 256"
  by (simp add: uint_word_of_int take_bit_eq_mod)

lemma le_bytes_Suc: "le_bytes (Suc n) w = word_of_int w # le_bytes n (w div 256)"
proof -
  have "[0..<Suc n] = 0 # map Suc [0..<n]" by (simp add: upt_conv_Cons map_Suc_upt)
  then show ?thesis
    by (simp add: le_bytes_def comp_def zdiv_zmult2_eq del: upt_Suc)
qed

lemma le_int_Cons: "le_int (b # bs) = uint b + 256 * le_int bs"
  by (simp add: le_int_def)

lemma le_int_le_bytes: "0 \<le> w \<Longrightarrow> le_int (le_bytes n w) = w mod 256 ^ n"
proof (induction n arbitrary: w)
  case 0
  then show ?case by (simp add: le_bytes_def le_int_def)
next
  case (Suc n)
  have "0 \<le> w div 256" using Suc.prems by simp
  then have "le_int (le_bytes n (w div 256)) = (w div 256) mod 256 ^ n" by (rule Suc.IH)
  then show ?case
    by (simp add: le_bytes_Suc le_int_Cons uint_byte zmod_zmult2_eq)
qed

lemma le_int_le_bytes_1: "0 \<le> w \<Longrightarrow> w < 256 \<Longrightarrow> le_int (le_bytes 1 w) = w"
  using le_int_le_bytes[of w 1] by simp

lemma le_int_le_bytes_2: "0 \<le> w \<Longrightarrow> w < 65536 \<Longrightarrow> le_int (le_bytes 2 w) = w"
  using le_int_le_bytes[of w 2] by simp

lemma le_int_le_bytes_4: "0 \<le> w \<Longrightarrow> w < 4294967296 \<Longrightarrow> le_int (le_bytes 4 w) = w"
  using le_int_le_bytes[of w 4] by simp

lemma pack_f_cases:
  "pack_f x = (if f32_overflows x then Inl OverflowError else Inr (le_bytes 4 (f32_bits x)))"
  by (simp add: pack_f_def f32_overflows_def)

lemma pack_H_cases:
  "pack_H v = (if 0 \<le> v \<and> v \<le> 65535 then Inr (le_bytes 2 v) else Inl StructError)"
  by (simp add: pack_H_def)

lemma header_Inr_iff:
  "header mt = Inr h \<longleftrightarrow>
     0 \<le> nlat mt \<and> nlat mt \<le> 65535 \<and> 0 \<le> nlon mt \<and> nlon mt \<le> 65535
     \<and> 0 \<le> scale mt \<and> scale mt \<le> 255
     \<and> \<not> f32_overflows (lat0 mt) \<and> \<not> f32_overflows (lon0 mt)
     \<and> \<not> f32_overflows (dlat mt) \<and> \<not> f32_overflows (dlon mt)
     \<and> h = magic @ le_bytes 2 2 @ le_bytes 2 (nlat mt) @ le_bytes 2 (nlon mt)
           @ le_bytes 1 (scale mt) @ le_bytes 1 0
           @ le_bytes 4 (f32_bits (lat0 mt)) @ le_bytes 4 (f32_bits (lon0 mt))
           @ le_bytes 4 (f32_bits (dlat mt)) @ le_bytes 4 (f32_bits (dlon mt))"
  by (auto simp: header_def pack_ffff_def bind_def pack_H_def pack_B_def pack_f_cases
      split: sum.splits if_splits)

lemma header_Inl_cases:
  "header mt = Inl e \<Longrightarrow>
     (e = StructError \<and> \<not> (0 \<le> nlat mt \<and> nlat mt \<le> 65535 \<and> 0 \<le> nlon mt \<and> nlon mt \<le> 65535
        \<and> 0 \<le> scale mt \<and> scale mt \<le> 255))
     \<or> (e = OverflowError \<and> 0 \<le> nlat mt \<and> nlat mt \<le> 65535 \<and> 0 \<le> nlon mt \<and> nlon mt \<le> 65535
        \<and> 0 \<le> scale mt \<and> scale mt \<le> 255
        \<and> (f32_overflows (lat0 mt) \<or> f32_overflows (lon0 mt)
           \<or> f32_overflows (dlat mt) \<or> f32_overflows (dlon mt)))"
  by (auto simp: header_def pack_ffff_def bind_def pack_H_def pack_B_def pack_f_cases
      split: sum.splits if_splits)

text \<open>
  Binary32: the magnitude bits reach \<open>0x7F800000\<close> exactly when the rounded value is past
  the largest finite binary32 value, and the bits of a value that does not overflow
  decode to the value rounded to binary32.
\<close>

lemma divmod_2_23:
  assumes "0 \<le> fr" and "fr < 8388608"
  shows "(B * 8388608 + fr) div 8388608 = (B::int)" and "(B * 8388608 + fr) mod 8388608 = fr"
  using assms by (simp_all add: div_pos_pos_trivial)

lemma f32_mag_overflow_iff:
  assumes "0 < a" and "fl_parts 24 (- 126) a = (m, e)"
  shows "0x7F800000 \<le> f32_mag a \<longleftrightarrow> 2 powi (127 + 1) \<le> of_int m * (2::rat) powi (e - int 24 + 1)"
proof -
  note pr = fl_parts_props[OF assms]
  have mag: "f32_mag a = (e + 126) * 2 ^ 23 + m"
    using assms by (simp add: f32_mag_def)
  have u: "0 < (2::rat) powi (e - 23)" by (simp add: zero_less_power_int)
  have "(of_int m :: rat) \<le> of_int (2 ^ 24)" using pr(3) by (simp only: of_int_le_iff)
  then have mr: "(of_int m :: rat) \<le> 2 ^ 24" by simp
  consider "128 \<le> e" | "e = 127" | "e \<le> 126" by linarith
  then show ?thesis
  proof cases
    case 1
    then have m: "2 ^ 23 \<le> m" using pr(4) by simp
    then have "(of_int (2 ^ 23) :: rat) \<le> of_int m" by (simp only: of_int_le_iff)
    then have "(2::rat) ^ 23 \<le> of_int m" by simp
    then have "2 ^ 23 * 2 powi (e - 23) \<le> of_int m * (2::rat) powi (e - 23)"
      using u by (simp add: mult_right_mono)
    moreover have "(2::rat) ^ 23 * 2 powi (e - 23) = 2 powi e"
      using power_int_add[of "2::rat" 23 "e - 23"] by simp
    moreover have "(2::rat) powi 128 \<le> 2 powi e" using 1 by (intro power_int_increasing) auto
    ultimately have "2 powi 128 \<le> of_int m * (2::rat) powi (e - 23)" by linarith
    moreover have "0x7F800000 \<le> f32_mag a" using 1 m by (simp add: mag)
    ultimately show ?thesis by simp
  next
    case 2
    have "(2::rat) powi 128 = 2 ^ 24 * 2 powi 104" by simp
    then have "2 powi 128 \<le> of_int m * (2::rat) powi (e - 23) \<longleftrightarrow> (2::rat) ^ 24 \<le> of_int m"
      using 2 by simp
    also have "\<dots> \<longleftrightarrow> (of_int (2 ^ 24) :: rat) \<le> of_int m" by simp
    also have "\<dots> \<longleftrightarrow> 2 ^ 24 \<le> m" by (simp only: of_int_le_iff)
    finally show ?thesis using 2 by (auto simp: mag)
  next
    case 3
    have "of_int m * (2::rat) powi (e - 23) \<le> 2 ^ 24 * 2 powi (e - 23)"
      using mr u by (simp add: mult_right_mono)
    also have "\<dots> = 2 powi (e + 1)"
      using power_int_add[of "2::rat" 24 "e - 23"] by (simp add: add.commute)
    also have "\<dots> \<le> 2 powi 127" using 3 by (intro power_int_increasing) auto
    also have "\<dots> < 2 powi 128" by simp
    finally have "\<not> 2 powi 128 \<le> of_int m * (2::rat) powi (e - 23)" by simp
    moreover have "\<not> 0x7F800000 \<le> f32_mag a" using 3 pr(3) by (simp add: mag)
    ultimately show ?thesis by simp
  qed
qed

lemma r32_eq:
  assumes "q \<noteq> 0" and "fl_parts 24 (- 126) \<bar>q\<bar> = (m, e)"
  shows "r32 q = (if 0x7F800000 \<le> f32_mag \<bar>q\<bar> then inf_of (q < 0)
                  else if m = 0 then zero_of (q < 0)
                  else Fin (if q < 0 then - (of_int m * 2 powi (e - 23)) else of_int m * 2 powi (e - 23)))"
proof -
  have a: "0 < \<bar>q\<bar>" using assms(1) by simp
  have u: "(2::rat) powi (e - 23) \<noteq> 0" by simp
  show ?thesis
    unfolding r32_def fl_round_def f32_mag_overflow_iff[OF a assms(2)]
    using assms(1) u by (simp add: assms(2) Let_def inf_of_def zero_of_def)
qed

lemma f32_overflows_iff: "f32_overflows x \<longleftrightarrow> is_finite x \<and> is_inf (to_f32 x)"
proof (cases x)
  case (Fin q)
  show ?thesis
  proof (cases "q = 0")
    case True
    then show ?thesis using Fin
      by (simp add: f32_overflows_def to_f32_def f32_mag_def r32_def fl_round_def)
  next
    case False
    obtain m e where me: "fl_parts 24 (- 126) \<bar>q\<bar> = (m, e)" by (cases "fl_parts 24 (- 126) \<bar>q\<bar>")
    show ?thesis using Fin
      by (simp add: f32_overflows_def to_f32_def r32_eq[OF False me] inf_of_def zero_of_def)
  qed
qed (simp_all add: f32_overflows_def to_f32_def f32_mag_def)

lemma f32_roundtrip:
  assumes "\<not> f32_overflows x"
  shows "f32_of_bits (f32_bits x) = to_f32 x"
proof (cases x)
  case (Fin q)
  show ?thesis
  proof (cases "q = 0")
    case True
    then show ?thesis using Fin
      by (simp add: to_f32_def f32_mag_def r32_def fl_round_def f32_of_bits_def zero_of_def)
  next
    case False
    obtain m e where me: "fl_parts 24 (- 126) \<bar>q\<bar> = (m, e)" by (cases "fl_parts 24 (- 126) \<bar>q\<bar>")
    have a: "0 < \<bar>q\<bar>" using False by simp
    note pr = fl_parts_props[OF a me]
    define mag where "mag = f32_mag \<bar>q\<bar>"
    have mag: "mag = (e + 126) * 8388608 + m" using False me by (simp add: mag_def f32_mag_def)
    have nov: "mag < 2139095040" using assms Fin by (simp add: f32_overflows_def mag_def)
    have r: "to_f32 x = (if m = 0 then zero_of (q < 0)
        else Fin (if q < 0 then - (of_int m * 2 powi (e - 23)) else of_int m * 2 powi (e - 23)))"
      using nov by (simp add: Fin to_f32_def r32_eq[OF False me] mag_def)
    have mag0: "0 \<le> mag" using pr(1,2) by (simp add: mag)
    define w where "w = f32_bits x"
    have w: "w = (if q < 0 then 2147483648 else 0) + mag" by (simp add: w_def Fin mag_def)
    have s: "((w div 2 ^ 31) mod 2 = 1) = (q < 0)"
      using mag0 nov by (auto simp: w div_pos_pos_trivial)
    have d23: "w div 2 ^ 23 mod 256 = mag div 8388608"
    proof -
      have "mag div 8388608 < 255" using nov by simp
      moreover have "0 \<le> mag div 8388608" using mag0 by simp
      moreover have "w div 8388608 = (if q < 0 then 256 else 0) + mag div 8388608"
        using div_mult_self4[of 8388608 256 mag] by (simp add: w)
      ultimately show ?thesis by (auto simp: mod_pos_pos_trivial)
    qed
    have m23: "w mod 2 ^ 23 = mag mod 8388608"
      using mod_mult_self4[of 8388608 256 mag] by (simp add: w)
    consider "m = 0" | "0 < m" "m < 8388608" | "8388608 \<le> m" "m < 16777216" | "m = 16777216"
      using pr(2,3) by fastforce
    then show ?thesis
    proof cases
      case 1
      then have e: "e = - 126" using pr(1,4) by (cases "- 126 < e") auto
      then have "mag = 0" using 1 by (simp add: mag)
      then show ?thesis
        unfolding w_def[symmetric] r f32_of_bits_def using s d23 m23 1 by (simp add: Let_def)
    next
      case 2
      then have e: "e = - 126" using pr(1,4) by (cases "- 126 < e") auto
      then have "mag = m" by (simp add: mag)
      then show ?thesis
        unfolding w_def[symmetric] r f32_of_bits_def using s d23 m23 2 e
        by (simp add: Let_def div_pos_pos_trivial)
    next
      case 3
      have "mag = (e + 127) * 8388608 + (m - 8388608)" by (simp add: mag)
      then have dm: "mag div 8388608 = e + 127" "mag mod 8388608 = m - 8388608"
        using divmod_2_23[of "m - 8388608" "e + 127"] 3 by simp_all
      have e1: "e + 127 \<noteq> 0" "e + 127 \<noteq> 255" using pr(1) nov dm(1) by auto
      have "e + 127 - 150 = e - 23" by simp
      then show ?thesis
        unfolding w_def[symmetric] r f32_of_bits_def using s d23 m23 3 e1
        by (simp add: Let_def dm)
    next
      case 4
      have "mag = (e + 128) * 8388608 + 0" by (simp add: mag 4)
      then have dm: "mag div 8388608 = e + 128" "mag mod 8388608 = 0"
        using divmod_2_23[of 0 "e + 128"] by simp_all
      have e1: "e + 128 \<noteq> 0" "e + 128 \<noteq> 255" using pr(1) nov dm(1) by auto
      have "(2::rat) powi (e + 128 - 150) = 2 * 2 powi (e - 23)"
        using power_int_add[of "2::rat" 1 "e - 23"] by (simp add: add.commute)
      then show ?thesis
        unfolding w_def[symmetric] r f32_of_bits_def using s d23 m23 4 e1
        by (simp add: Let_def dm)
    qed
  qed
qed (simp_all add: to_f32_def f32_of_bits_def inf_of_def zero_of_def)

text \<open>The payload: the bytes of a volume of shape \<open>(12, a, b)\<close> in C order.\<close>

lemma length_concat_uniform:
  "\<forall>xs\<in>set xss. length xs = n \<Longrightarrow> length (concat xss) = length xss * n"
  by (induction xss) auto

lemma nth_concat_uniform:
  "\<forall>xs\<in>set xss. length xs = n \<Longrightarrow> i < length xss \<Longrightarrow> j < n
     \<Longrightarrow> concat xss ! (i * n + j) = xss ! i ! j"
proof (induction xss arbitrary: i)
  case Nil
  then show ?case by simp
next
  case (Cons x xss)
  show ?case
  proof (cases i)
    case 0
    then show ?thesis using Cons.prems by (simp add: nth_append)
  next
    case (Suc k)
    have "concat (x # xss) ! (i * n + j) = concat xss ! (k * n + j)"
      using Cons.prems Suc by (simp add: nth_append)
    also have "\<dots> = xss ! k ! j" using Cons.prems Suc by (intro Cons.IH) auto
    finally show ?thesis using Suc by simp
  qed
qed

lemma length_tobytes: "shaped arr a b \<Longrightarrow> length (tobytes arr) = 12 * a * b"
proof -
  assume s: "shaped arr a b"
  then have "\<forall>xs\<in>set (map concat arr). length xs = a * b"
    by (auto simp: shaped_def length_concat_uniform)
  then have "length (concat (map concat arr)) = length (map concat arr) * (a * b)"
    by (rule length_concat_uniform)
  then show ?thesis using s by (simp add: tobytes_def shaped_def)
qed

lemma nth_tobytes:
  assumes "shaped arr a b" and "m < 12" and "i < a" and "j < b"
  shows "tobytes arr ! (m * a * b + i * b + j) = arr ! m ! i ! j"
proof -
  have len: "length arr = 12" using assms(1) by (simp add: shaped_def)
  have pl: "arr ! m \<in> set arr" using assms(2) len by simp
  then have rows: "\<forall>row\<in>set (arr ! m). length row = b" and lp: "length (arr ! m) = a"
    using assms(1) by (auto simp: shaped_def)
  have u: "\<forall>xs\<in>set (map concat arr). length xs = a * b"
    using assms(1) by (auto simp: shaped_def length_concat_uniform)
  have ij: "i * b + j < a * b"
  proof -
    have "i * b + j < i * b + b" using assms(4) by simp
    also have "\<dots> = Suc i * b" by simp
    also have "\<dots> \<le> a * b" using assms(3) by (intro mult_le_mono1) simp
    finally show ?thesis .
  qed
  have "tobytes arr ! (m * (a * b) + (i * b + j)) = map concat arr ! m ! (i * b + j)"
    unfolding tobytes_def using u ij assms(2) len by (intro nth_concat_uniform) auto
  also have "\<dots> = concat (arr ! m) ! (i * b + j)" using assms(2) len by simp
  also have "\<dots> = arr ! m ! i ! j" using rows lp assms(3,4) by (intro nth_concat_uniform) auto
  finally show ?thesis by (simp add: mult.assoc add.assoc)
qed

lemma write_bin_Inr:
  "write_bin fs path arr mt = (fs', Inr ()) \<longleftrightarrow>
     (\<exists>h. header mt = Inr h \<and> fs' = fs(path \<mapsto> h @ tobytes arr))"
  by (auto simp: write_bin_def split: sum.splits)

lemma write_bin_fails:
  "snd (write_bin fs path arr mt) \<noteq> Inr () \<longleftrightarrow> (\<exists>e. header mt = Inl e)"
  by (cases "header mt") (auto simp: write_bin_def)

lemma write_bin_Inl:
  "header mt = Inl e \<Longrightarrow> write_bin fs path arr mt = (fs, Inl e)"
  by (simp add: write_bin_def)

lemma header_fails_iff:
  "(\<exists>e. header mt = Inl e) \<longleftrightarrow>
     nlat mt < 0 \<or> 65535 < nlat mt \<or> nlon mt < 0 \<or> 65535 < nlon mt
     \<or> scale mt < 0 \<or> 255 < scale mt
     \<or> f32_overflows (lat0 mt) \<or> f32_overflows (lon0 mt)
     \<or> f32_overflows (dlat mt) \<or> f32_overflows (dlon mt)"
proof -
  have "(\<exists>e. header mt = Inl e) \<longleftrightarrow> \<not> (\<exists>h. header mt = Inr h)"
    by (cases "header mt") auto
  then show ?thesis unfolding header_Inr_iff by auto
qed

lemma field_mid: "length a = off \<Longrightarrow> length b = n \<Longrightarrow> field off n (a @ b @ c) = b"
  by (simp add: field_def)

lemma field_first: "length b = n \<Longrightarrow> field 0 n (b @ c) = b"
  by (simp add: field_def)

lemma drop_header: "length a = off \<Longrightarrow> drop off (a @ c) = c"
  by simp

lemma length_magic [simp]: "length magic = 4"
  by (simp add: magic_def)

lemma length_layout [simp]: "length (layout mt) = 28"
  by (simp add: layout_def)

lemma layout_fields:
  "field 0 4 (layout mt @ p) = magic"
  "field 4 2 (layout mt @ p) = le_bytes 2 2"
  "field 6 2 (layout mt @ p) = le_bytes 2 (nlat mt)"
  "field 8 2 (layout mt @ p) = le_bytes 2 (nlon mt)"
  "field 10 1 (layout mt @ p) = le_bytes 1 (scale mt)"
  "field 11 1 (layout mt @ p) = le_bytes 1 0"
  "field 12 4 (layout mt @ p) = le_bytes 4 (f32_bits (lat0 mt))"
  "field 16 4 (layout mt @ p) = le_bytes 4 (f32_bits (lon0 mt))"
  "field 20 4 (layout mt @ p) = le_bytes 4 (f32_bits (dlat mt))"
  "field 24 4 (layout mt @ p) = le_bytes 4 (f32_bits (dlon mt))"
  "drop 28 (layout mt @ p) = p"
proof -
  show "field 0 4 (layout mt @ p) = magic"
    by (simp add: layout_def field_def)
  show "field 4 2 (layout mt @ p) = le_bytes 2 2"
    using field_mid[of magic 4 "le_bytes 2 2" 2] by (simp add: layout_def)
  show "field 6 2 (layout mt @ p) = le_bytes 2 (nlat mt)"
    using field_mid[of "magic @ le_bytes 2 2" 6 "le_bytes 2 (nlat mt)" 2] by (simp add: layout_def)
  show "field 8 2 (layout mt @ p) = le_bytes 2 (nlon mt)"
    using field_mid[of "magic @ le_bytes 2 2 @ le_bytes 2 (nlat mt)" 8 "le_bytes 2 (nlon mt)" 2]
    by (simp add: layout_def)
  show "field 10 1 (layout mt @ p) = le_bytes 1 (scale mt)"
    using field_mid[of "magic @ le_bytes 2 2 @ le_bytes 2 (nlat mt) @ le_bytes 2 (nlon mt)" 10
        "le_bytes 1 (scale mt)" 1]
    by (simp add: layout_def)
  show "field 11 1 (layout mt @ p) = le_bytes 1 0"
    using field_mid[of "magic @ le_bytes 2 2 @ le_bytes 2 (nlat mt) @ le_bytes 2 (nlon mt)
        @ le_bytes 1 (scale mt)" 11 "le_bytes 1 0" 1]
    by (simp add: layout_def)
  show "field 12 4 (layout mt @ p) = le_bytes 4 (f32_bits (lat0 mt))"
    using field_mid[of "magic @ le_bytes 2 2 @ le_bytes 2 (nlat mt) @ le_bytes 2 (nlon mt)
        @ le_bytes 1 (scale mt) @ le_bytes 1 0" 12 "le_bytes 4 (f32_bits (lat0 mt))" 4]
    by (simp add: layout_def)
  show "field 16 4 (layout mt @ p) = le_bytes 4 (f32_bits (lon0 mt))"
    using field_mid[of "magic @ le_bytes 2 2 @ le_bytes 2 (nlat mt) @ le_bytes 2 (nlon mt)
        @ le_bytes 1 (scale mt) @ le_bytes 1 0 @ le_bytes 4 (f32_bits (lat0 mt))" 16
        "le_bytes 4 (f32_bits (lon0 mt))" 4]
    by (simp add: layout_def)
  show "field 20 4 (layout mt @ p) = le_bytes 4 (f32_bits (dlat mt))"
    using field_mid[of "magic @ le_bytes 2 2 @ le_bytes 2 (nlat mt) @ le_bytes 2 (nlon mt)
        @ le_bytes 1 (scale mt) @ le_bytes 1 0 @ le_bytes 4 (f32_bits (lat0 mt))
        @ le_bytes 4 (f32_bits (lon0 mt))" 20 "le_bytes 4 (f32_bits (dlat mt))" 4]
    by (simp add: layout_def)
  show "field 24 4 (layout mt @ p) = le_bytes 4 (f32_bits (dlon mt))"
    using field_mid[of "magic @ le_bytes 2 2 @ le_bytes 2 (nlat mt) @ le_bytes 2 (nlon mt)
        @ le_bytes 1 (scale mt) @ le_bytes 1 0 @ le_bytes 4 (f32_bits (lat0 mt))
        @ le_bytes 4 (f32_bits (lon0 mt)) @ le_bytes 4 (f32_bits (dlat mt))" 24
        "le_bytes 4 (f32_bits (dlon mt))" 4]
    by (simp add: layout_def)
  show "drop 28 (layout mt @ p) = p" by simp
qed

lemma header_layout: "header mt = Inr h \<Longrightarrow> h = layout mt"
  by (simp add: header_Inr_iff layout_def)

lemma f32_bits_range: "\<not> f32_overflows x \<Longrightarrow> 0 \<le> f32_bits x \<and> f32_bits x < 4294967296"
proof (cases x)
  case (Fin q)
  assume n: "\<not> f32_overflows x"
  show ?thesis
  proof (cases "q = 0")
    case True
    then show ?thesis using Fin by (simp add: f32_mag_def)
  next
    case False
    obtain m e where me: "fl_parts 24 (- 126) \<bar>q\<bar> = (m, e)" by (cases "fl_parts 24 (- 126) \<bar>q\<bar>")
    have a: "0 < \<bar>q\<bar>" using False by simp
    note pr = fl_parts_props[OF a me]
    have "f32_mag \<bar>q\<bar> = (e + 126) * 8388608 + m" using False me by (simp add: f32_mag_def)
    moreover have "f32_mag \<bar>q\<bar> < 2139095040" using n Fin by (simp add: f32_overflows_def)
    ultimately show ?thesis using pr(1,2) Fin by simp
  qed
qed simp_all

lemma f32_field_roundtrip:
  "\<not> f32_overflows x \<Longrightarrow> f32_of_bits (le_int (le_bytes 4 (f32_bits x))) = to_f32 x"
  using f32_bits_range[of x] by (simp add: le_int_le_bytes_4 f32_roundtrip)

lemma magic_ascii: "magic = map of_char ''TLB2''"
  by (simp add: magic_def)

lemma r32_dyadic:
  assumes "\<bar>M\<bar> < 2 ^ 24" and "- 149 \<le> k" and "k \<le> 104"
  shows "r32 (of_int M * 2 powi k) = Fin (of_int M * 2 powi k)"
proof (cases "M = 0")
  case True
  then show ?thesis by (simp add: r32_def fl_round_def)
next
  case False
  have pk: "0 < (2::rat) powi k" by (simp add: zero_less_power_int)
  have "(of_int \<bar>M\<bar> :: rat) < of_int (2 ^ 24)" using assms(1) by (simp only: of_int_less_iff)
  then have M: "(of_int \<bar>M\<bar> :: rat) < 2 ^ 24" by simp
  have "\<bar>of_int M * (2::rat) powi k\<bar> = of_int \<bar>M\<bar> * 2 powi k"
    using pk by (simp add: abs_mult)
  also have "\<dots> < 2 ^ 24 * 2 powi k" using M pk by (simp add: mult_strict_right_mono)
  also have "\<dots> = 2 powi (24 + k)" using power_int_add[of "2::rat" 24 k] by simp
  also have "\<dots> \<le> 2 powi (127 + 1)" using assms(3) by (intro power_int_increasing) auto
  finally have lt: "\<bar>of_int M * (2::rat) powi k\<bar> < 2 powi (127 + 1)" .
  show ?thesis unfolding r32_def
    by (rule fl_round_exact[OF refl False _ _ lt]) (use assms in auto)
qed

lemma to_f32_idem: "to_f32 (to_f32 x) = to_f32 x"
proof (cases x)
  case (Fin q)
  show ?thesis
  proof (cases "r32 q")
    case (Fin r)
    then have "r32 r = Fin r" unfolding r32_def by (intro fl_round_idem) simp_all
    then show ?thesis using \<open>x = Fin q\<close> Fin by (simp add: to_f32_def)
  qed (simp_all add: \<open>x = Fin q\<close> to_f32_def)
qed (simp_all add: to_f32_def)

lemma to_f32_script_values:
  "to_f32 (Fin (- (129 / 2))) = Fin (- (129 / 2))"
  "to_f32 (Fin (- (359 / 2))) = Fin (- (359 / 2))"
  "to_f32 (Fin 1) = Fin 1"
  using r32_dyadic[of "- 129" "- 1"] r32_dyadic[of "- 359" "- 1"] r32_dyadic[of 1 0]
  by (simp_all add: to_f32_def)

lemma not_overflows_script_values:
  "\<not> f32_overflows (Fin (- (129 / 2)))" "\<not> f32_overflows (Fin (- (359 / 2)))"
  "\<not> f32_overflows (Fin 1)"
  by (simp_all add: f32_overflows_iff to_f32_script_values)

lemma r32_2_128: "r32 (2 ^ 128) = PInf"
  unfolding r32_def
  by (subst fl_round_val[where e = 128 and m = "2 ^ 23" and k = 105]) simp_all

lemma overflows_2_128: "f32_overflows (Fin (2 ^ 128))"
  by (simp only: f32_overflows_iff to_f32_def pyfloat.case r32_2_128 is_finite.simps
      is_inf.simps simp_thms)

lemma r32_tenth:
  "r32 (3602879701896397 / 36028797018963968) = Fin (13421773 / 134217728)"
  unfolding r32_def
  by (subst fl_round_val[where e = "- 4" and m = 13421773 and k = "- 27"]) simp_all

lemma r64_tenth: "r64 (1 / 10) = Fin (3602879701896397 / 36028797018963968)"
  unfolding r64_def
  by (subst fl_round_val[where e = "- 4" and m = 7205759403792794 and k = "- 56"]) simp_all

lemma write_bin_decode:
  assumes w: "write_bin fs path arr mt = (fs', Inr ())"
    and sh: "shaped arr (nat (nlat mt)) (nat (nlon mt))"
  shows "fs' path = Some (layout mt @ tobytes arr)"
    and "decode (layout mt @ tobytes arr)
      = Some ((12, nat (nlat mt), nat (nlon mt)), arr,
              mt\<lparr>lat0 := to_f32 (lat0 mt), lon0 := to_f32 (lon0 mt),
                 dlat := to_f32 (dlat mt), dlon := to_f32 (dlon mt)\<rparr>)"
proof -
  obtain h where h: "header mt = Inr h" and fs': "fs' = fs(path \<mapsto> h @ tobytes arr)"
    using w by (auto simp: write_bin_Inr)
  have hl: "h = layout mt" using h by (rule header_layout)
  show "fs' path = Some (layout mt @ tobytes arr)" by (simp add: fs' hl)
  have fits: "0 \<le> nlat mt" "nlat mt \<le> 65535" "0 \<le> nlon mt" "nlon mt \<le> 65535"
    "0 \<le> scale mt" "scale mt \<le> 255"
    "\<not> f32_overflows (lat0 mt)" "\<not> f32_overflows (lon0 mt)"
    "\<not> f32_overflows (dlat mt)" "\<not> f32_overflows (dlon mt)"
    using h by (simp_all add: header_Inr_iff)
  define a where "a = nat (nlat mt)"
  define b where "b = nat (nlon mt)"
  have len: "length (tobytes arr) = 12 * a * b"
    using sh by (simp add: length_tobytes a_def b_def)
  have vol: "map (\<lambda>m. map (\<lambda>i. map (\<lambda>j. tobytes arr ! (m * a * b + i * b + j))
                         [0..<b]) [0..<a]) [0..<12] = arr"
  proof (rule nth_equalityI)
    show "length (map (\<lambda>m. map (\<lambda>i. map (\<lambda>j. tobytes arr ! (m * a * b + i * b + j))
                         [0..<b]) [0..<a]) [0..<12]) = length arr"
      using sh by (simp add: shaped_def)
  next
    fix m
    assume "m < length (map (\<lambda>m. map (\<lambda>i. map (\<lambda>j. tobytes arr ! (m * a * b + i * b + j))
                         [0..<b]) [0..<a]) [0..<12])"
    then have m: "m < 12" by simp
    have pm: "arr ! m \<in> set arr" using m sh by (simp add: shaped_def)
    then have lpm: "length (arr ! m) = a" using sh by (simp add: shaped_def a_def)
    have "map (\<lambda>i. map (\<lambda>j. tobytes arr ! (m * a * b + i * b + j)) [0..<b]) [0..<a] = arr ! m"
    proof (rule nth_equalityI)
      show "length (map (\<lambda>i. map (\<lambda>j. tobytes arr ! (m * a * b + i * b + j)) [0..<b]) [0..<a])
          = length (arr ! m)" by (simp add: lpm)
    next
      fix i
      assume "i < length (map (\<lambda>i. map (\<lambda>j. tobytes arr ! (m * a * b + i * b + j)) [0..<b]) [0..<a])"
      then have i: "i < a" by simp
      have "arr ! m ! i \<in> set (arr ! m)" using i lpm by simp
      then have lr: "length (arr ! m ! i) = b" using sh pm by (auto simp: shaped_def b_def)
      have "map (\<lambda>j. tobytes arr ! (m * a * b + i * b + j)) [0..<b] = arr ! m ! i"
      proof (rule nth_equalityI)
        show "length (map (\<lambda>j. tobytes arr ! (m * a * b + i * b + j)) [0..<b]) = length (arr ! m ! i)"
          by (simp add: lr)
      next
        fix j
        assume "j < length (map (\<lambda>j. tobytes arr ! (m * a * b + i * b + j)) [0..<b])"
        then have j: "j < b" by simp
        show "map (\<lambda>j. tobytes arr ! (m * a * b + i * b + j)) [0..<b] ! j = arr ! m ! i ! j"
          using nth_tobytes[OF sh[folded a_def b_def] m i j] j by simp
      qed
      then show "map (\<lambda>i. map (\<lambda>j. tobytes arr ! (m * a * b + i * b + j)) [0..<b]) [0..<a] ! i
          = arr ! m ! i" using i by simp
    qed
    then show "map (\<lambda>m. map (\<lambda>i. map (\<lambda>j. tobytes arr ! (m * a * b + i * b + j))
                         [0..<b]) [0..<a]) [0..<12] ! m = arr ! m" using m by simp
  qed
  have n1: "nat (le_int (le_bytes 2 (nlat mt))) = a" "nat (le_int (le_bytes 2 (nlon mt))) = b"
    using fits by (simp_all add: le_int_le_bytes_2 a_def b_def)
  have n2: "int a = nlat mt" "int b = nlon mt" using fits by (simp_all add: a_def b_def)
  show "decode (layout mt @ tobytes arr)
      = Some ((12, nat (nlat mt), nat (nlon mt)), arr,
              mt\<lparr>lat0 := to_f32 (lat0 mt), lon0 := to_f32 (lon0 mt),
                 dlat := to_f32 (dlat mt), dlon := to_f32 (dlon mt)\<rparr>)"
    unfolding decode_def layout_fields
    using fits len[unfolded a_def b_def] le_int_le_bytes_1[of 0] le_int_le_bytes_1[of "scale mt"]
    by (simp add: Let_def le_int_le_bytes_2 vol[unfolded a_def b_def] f32_field_roundtrip
        magic_def)
qed

lemma overflows_too_large: "f32_overflows too_large"
  unfolding too_large_def by (rule overflows_2_128)

lemma shaped_arr_small: "shaped arr_small 1 2"
  by (auto simp: shaped_def arr_small_def)

lemma header_mt_script: "header mt_script = Inr (layout mt_script)"
  by (simp add: header_Inr_iff layout_def mt_script_def not_overflows_script_values)

lemma write_bin_mt_script:
  "write_bin fs path arr_small mt_script
     = (fs(path \<mapsto> layout mt_script @ tobytes arr_small), Inr ())"
  by (simp add: write_bin_def header_mt_script)


lemma arr_small_5_0_1: "arr_small ! 5 ! 0 ! Suc 0 = 11"
  by (simp add: arr_small_def)


text \<open>
  C1. When the encoder succeeds on a volume of shape \<open>(12, nlat, nlon)\<close>, the file holds
  exactly \<open>28 + 12 * nlat * nlon\<close> bytes: bytes 0-3 are ASCII \<open>TLB2\<close>, bytes 4-5 the
  little-endian 16-bit value 2, bytes 6-7 \<open>nlat\<close>, bytes 8-9 \<open>nlon\<close>, byte 10 \<open>scale\<close>, byte
  11 zero, bytes 12-27 the little-endian binary32 values of \<open>lat0\<close>, \<open>lon0\<close>, \<open>dlat\<close> and
  \<open>dlon\<close>, and the byte at offset \<open>28 + m * nlat * nlon + i * nlon + j\<close> is the value stored
  in the volume for month \<open>m\<close>, latitude index \<open>i\<close> and longitude index \<open>j\<close>.
\<close>

theorem write_bin_layout:
  assumes "write_bin fs path arr mt = (fs', Inr ())"
    and "shaped arr (nat (nlat mt)) (nat (nlon mt))"
  shows "\<exists>bs. fs' path = Some bs
     \<and> length bs = 28 + 12 * nat (nlat mt) * nat (nlon mt)
     \<and> field 0 4 bs = map of_char ''TLB2''
     \<and> le_int (field 4 2 bs) = 2
     \<and> le_int (field 6 2 bs) = nlat mt
     \<and> le_int (field 8 2 bs) = nlon mt
     \<and> le_int (field 10 1 bs) = scale mt
     \<and> bs ! 11 = 0
     \<and> f32_of_bits (le_int (field 12 4 bs)) = to_f32 (lat0 mt)
     \<and> f32_of_bits (le_int (field 16 4 bs)) = to_f32 (lon0 mt)
     \<and> f32_of_bits (le_int (field 20 4 bs)) = to_f32 (dlat mt)
     \<and> f32_of_bits (le_int (field 24 4 bs)) = to_f32 (dlon mt)
     \<and> (\<forall>m<12. \<forall>i<nat (nlat mt). \<forall>j<nat (nlon mt).
          bs ! (28 + m * nat (nlat mt) * nat (nlon mt) + i * nat (nlon mt) + j) = arr ! m ! i ! j)"
proof -
  obtain h where h: "header mt = Inr h" and fs': "fs' = fs(path \<mapsto> h @ tobytes arr)"
    using assms(1) by (auto simp: write_bin_Inr)
  have hl: "h = layout mt" using h by (rule header_layout)
  have fits: "0 \<le> nlat mt" "nlat mt \<le> 65535" "0 \<le> nlon mt" "nlon mt \<le> 65535"
    "0 \<le> scale mt" "scale mt \<le> 255"
    "\<not> f32_overflows (lat0 mt)" "\<not> f32_overflows (lon0 mt)"
    "\<not> f32_overflows (dlat mt)" "\<not> f32_overflows (dlon mt)"
    using h by (simp_all add: header_Inr_iff)
  define bs where "bs = layout mt @ tobytes arr"
  have "fs' path = Some bs" by (simp add: fs' hl bs_def)
  moreover have "length bs = 28 + 12 * nat (nlat mt) * nat (nlon mt)"
    using length_tobytes[OF assms(2)] by (simp add: bs_def)
  moreover have "field 0 4 bs = map of_char ''TLB2''"
    by (simp add: bs_def layout_fields magic_ascii)
  moreover have "le_int (field 4 2 bs) = 2"
    by (simp add: bs_def layout_fields le_int_le_bytes_2)
  moreover have "le_int (field 6 2 bs) = nlat mt" "le_int (field 8 2 bs) = nlon mt"
    using fits by (simp_all add: bs_def layout_fields le_int_le_bytes_2)
  moreover have "le_int (field 10 1 bs) = scale mt"
  proof -
    have "field 10 1 bs = le_bytes 1 (scale mt)" by (simp only: bs_def layout_fields)
    then show ?thesis using fits le_int_le_bytes_1[of "scale mt"] by (simp only:)
  qed
  moreover have "bs ! 11 = 0"
  proof -
    have "field 11 1 bs = le_bytes 1 0" by (simp only: bs_def layout_fields)
    then have "field 11 1 bs = [0]" by (simp add: le_bytes_def)
    moreover have "11 < length bs" by (simp add: bs_def)
    ultimately show ?thesis by (simp add: field_def take_Suc_conv_app_nth)
  qed
  moreover have "f32_of_bits (le_int (field 12 4 bs)) = to_f32 (lat0 mt)"
    "f32_of_bits (le_int (field 16 4 bs)) = to_f32 (lon0 mt)"
    "f32_of_bits (le_int (field 20 4 bs)) = to_f32 (dlat mt)"
    "f32_of_bits (le_int (field 24 4 bs)) = to_f32 (dlon mt)"
    using fits by (simp_all add: bs_def layout_fields f32_field_roundtrip)
  moreover have "\<forall>m<12. \<forall>i<nat (nlat mt). \<forall>j<nat (nlon mt).
          bs ! (28 + m * nat (nlat mt) * nat (nlon mt) + i * nat (nlon mt) + j) = arr ! m ! i ! j"
  proof (intro allI impI)
    fix m i j :: nat
    assume m: "m < 12" and i: "i < nat (nlat mt)" and j: "j < nat (nlon mt)"
    have "bs ! (28 + (m * nat (nlat mt) * nat (nlon mt) + i * nat (nlon mt) + j))
        = tobytes arr ! (m * nat (nlat mt) * nat (nlon mt) + i * nat (nlon mt) + j)"
      unfolding bs_def using nth_append_length_plus[of "layout mt" "tobytes arr"] by simp
    then show "bs ! (28 + m * nat (nlat mt) * nat (nlon mt) + i * nat (nlon mt) + j) = arr ! m ! i ! j"
      using nth_tobytes[OF assms(2) m i j] by (simp add: add.assoc)
  qed
  ultimately show ?thesis by blast
qed

theorem write_bin_layout_witness:
  "write_bin Map.empty ''tl.bin'' arr_small mt_script
     = (Map.empty(''tl.bin'' \<mapsto> layout mt_script @ tobytes arr_small), Inr ())
   \<and> shaped arr_small (nat (nlat mt_script)) (nat (nlon mt_script))
   \<and> (\<exists>bs. (Map.empty(''tl.bin'' \<mapsto> layout mt_script @ tobytes arr_small)) ''tl.bin'' = Some bs
        \<and> length bs = 52
        \<and> field 0 4 bs = [0x54, 0x4C, 0x42, 0x32]
        \<and> le_int (field 6 2 bs) = 1 \<and> le_int (field 8 2 bs) = 2
        \<and> le_int (field 10 1 bs) = 20
        \<and> f32_of_bits (le_int (field 12 4 bs)) = Fin (- (129 / 2))
        \<and> bs ! 39 = 11)"
proof -
  have w: "write_bin Map.empty ''tl.bin'' arr_small mt_script
     = (Map.empty(''tl.bin'' \<mapsto> layout mt_script @ tobytes arr_small), Inr ())"
    by (rule write_bin_mt_script)
  have n: "nat (nlat mt_script) = 1" "nat (nlon mt_script) = 2"
    "nlat mt_script = 1" "nlon mt_script = 2" "scale mt_script = 20"
    "lat0 mt_script = Fin (- (129 / 2))"
    by (simp_all add: mt_script_def)
  have sh: "shaped arr_small (nat (nlat mt_script)) (nat (nlon mt_script))"
    using shaped_arr_small by (simp add: n)
  obtain bs where bs: "(Map.empty(''tl.bin'' \<mapsto> layout mt_script @ tobytes arr_small)) ''tl.bin'' = Some bs"
    "length bs = 28 + 12 * nat (nlat mt_script) * nat (nlon mt_script)"
    "field 0 4 bs = map of_char ''TLB2''"
    "le_int (field 6 2 bs) = nlat mt_script" "le_int (field 8 2 bs) = nlon mt_script"
    "le_int (field 10 1 bs) = scale mt_script"
    "f32_of_bits (le_int (field 12 4 bs)) = to_f32 (lat0 mt_script)"
    "\<forall>m<12. \<forall>i<nat (nlat mt_script). \<forall>j<nat (nlon mt_script).
        bs ! (28 + m * nat (nlat mt_script) * nat (nlon mt_script) + i * nat (nlon mt_script) + j)
          = arr_small ! m ! i ! j"
    using write_bin_layout[OF w sh] by blast
  have "bs ! (28 + 5 * 1 * 2 + 0 * 2 + 1) = arr_small ! 5 ! 0 ! 1"
    using bs(8)[rule_format, of 5 0 1] by (simp add: n(1,2))
  then have "bs ! 39 = 11" by (simp add: arr_small_5_0_1)
  then show ?thesis
    using w sh bs(1-7) by (simp add: n to_f32_script_values)
qed


text \<open>
  C6 (amended). The encoder fails if and only if a metadata field does not fit its
  field: \<open>nlat\<close> or \<open>nlon\<close> outside \<open>0..65535\<close> or \<open>scale\<close> outside \<open>0..255\<close>, signalled
  by \<open>struct.error\<close>, or else a finite \<open>lat0\<close>, \<open>lon0\<close>, \<open>dlat\<close> or \<open>dlon\<close> whose nearest
  binary32 value is an infinity, signalled by \<open>OverflowError\<close>. On failure the file system
  is unchanged: no byte has been written. The claim as stated, failure only for
  \<open>nlat\<close> or \<open>nlon\<close> above 65535 or \<open>scale\<close> above 255, is refuted by
  \<open>write_bin_failure_counterexample\<close>.
\<close>

theorem write_bin_failure:
  "(snd (write_bin fs path arr mt) \<noteq> Inr () \<longleftrightarrow>
      nlat mt < 0 \<or> 65535 < nlat mt \<or> nlon mt < 0 \<or> 65535 < nlon mt
      \<or> scale mt < 0 \<or> 255 < scale mt
      \<or> f32_overflows (lat0 mt) \<or> f32_overflows (lon0 mt)
      \<or> f32_overflows (dlat mt) \<or> f32_overflows (dlon mt))
   \<and> (f32_overflows x \<longleftrightarrow> is_finite x \<and> is_inf (to_f32 x))
   \<and> (snd (write_bin fs path arr mt) = Inl e \<longrightarrow>
        fst (write_bin fs path arr mt) = fs
        \<and> (if nlat mt < 0 \<or> 65535 < nlat mt \<or> nlon mt < 0 \<or> 65535 < nlon mt
               \<or> scale mt < 0 \<or> 255 < scale mt
            then e = StructError else e = OverflowError))"
proof (intro conjI impI)
  show "snd (write_bin fs path arr mt) \<noteq> Inr () \<longleftrightarrow>
      nlat mt < 0 \<or> 65535 < nlat mt \<or> nlon mt < 0 \<or> 65535 < nlon mt
      \<or> scale mt < 0 \<or> 255 < scale mt
      \<or> f32_overflows (lat0 mt) \<or> f32_overflows (lon0 mt)
      \<or> f32_overflows (dlat mt) \<or> f32_overflows (dlon mt)"
    unfolding write_bin_fails by (rule header_fails_iff)
  show "f32_overflows x \<longleftrightarrow> is_finite x \<and> is_inf (to_f32 x)"
    by (rule f32_overflows_iff)
next
  assume "snd (write_bin fs path arr mt) = Inl e"
  then have h: "header mt = Inl e" by (cases "header mt") (auto simp: write_bin_def)
  show "fst (write_bin fs path arr mt) = fs" by (simp add: write_bin_Inl[OF h])
  show "if nlat mt < 0 \<or> 65535 < nlat mt \<or> nlon mt < 0 \<or> 65535 < nlon mt
               \<or> scale mt < 0 \<or> 255 < scale mt
            then e = StructError else e = OverflowError"
    using header_Inl_cases[OF h] by auto
qed

theorem write_bin_failure_witness:
  "write_bin Map.empty ''tl.bin'' arr_small (mt_script\<lparr>nlat := 65536\<rparr>)
     = (Map.empty, Inl StructError)
   \<and> write_bin Map.empty ''tl.bin'' arr_small (mt_script\<lparr>dlon := too_large\<rparr>)
     = (Map.empty, Inl OverflowError)
   \<and> snd (write_bin Map.empty ''tl.bin'' arr_small mt_script) = Inr ()"
proof -
  have 1: "header (mt_script\<lparr>nlat := 65536\<rparr>) = Inl StructError"
    by (simp add: header_def pack_H_def bind_def mt_script_def)
  have 2: "header (mt_script\<lparr>dlon := too_large\<rparr>) = Inl OverflowError"
    using header_Inl_cases[of "mt_script\<lparr>dlon := too_large\<rparr>"]
      header_fails_iff[of "mt_script\<lparr>dlon := too_large\<rparr>"] overflows_too_large
    by (auto simp: mt_script_def)
  have a: "snd (write_bin Map.empty ''tl.bin'' arr_small (mt_script\<lparr>nlat := 65536\<rparr>))
      = Inl StructError" by (simp add: write_bin_Inl[OF 1])
  have b: "snd (write_bin Map.empty ''tl.bin'' arr_small (mt_script\<lparr>dlon := too_large\<rparr>))
      = Inl OverflowError" by (simp add: write_bin_Inl[OF 2])
  have "fst (write_bin Map.empty ''tl.bin'' arr_small (mt_script\<lparr>nlat := 65536\<rparr>)) = Map.empty"
    using write_bin_failure[of Map.empty "''tl.bin''" arr_small "mt_script\<lparr>nlat := 65536\<rparr>" _
        StructError] a by simp
  moreover have "fst (write_bin Map.empty ''tl.bin'' arr_small (mt_script\<lparr>dlon := too_large\<rparr>))
      = Map.empty"
    using write_bin_failure[of Map.empty "''tl.bin''" arr_small
        "mt_script\<lparr>dlon := too_large\<rparr>" _ OverflowError] b by simp
  moreover have "snd (write_bin Map.empty ''tl.bin'' arr_small mt_script) = Inr ()"
    by (simp add: write_bin_mt_script)
  ultimately show ?thesis using a b by (simp add: prod_eq_iff)
qed


theorem write_bin_failure_counterexample:
  "nlat (mt_script\<lparr>dlon := too_large\<rparr>) \<le> 65535
   \<and> nlon (mt_script\<lparr>dlon := too_large\<rparr>) \<le> 65535
   \<and> scale (mt_script\<lparr>dlon := too_large\<rparr>) \<le> 255
   \<and> write_bin Map.empty ''tl.bin'' arr_small (mt_script\<lparr>dlon := too_large\<rparr>)
       = (Map.empty, Inl OverflowError)
   \<and> nlat (mt_script\<lparr>nlat := - 1\<rparr>) \<le> 65535
   \<and> nlon (mt_script\<lparr>nlat := - 1\<rparr>) \<le> 65535
   \<and> scale (mt_script\<lparr>nlat := - 1\<rparr>) \<le> 255
   \<and> write_bin Map.empty ''tl.bin'' arr_small (mt_script\<lparr>nlat := - 1\<rparr>)
       = (Map.empty, Inl StructError)"
proof -
  have 1: "header (mt_script\<lparr>nlat := - 1\<rparr>) = Inl StructError"
    by (simp add: header_def pack_H_def bind_def mt_script_def)
  have 2: "header (mt_script\<lparr>dlon := too_large\<rparr>) = Inl OverflowError"
    using header_Inl_cases[of "mt_script\<lparr>dlon := too_large\<rparr>"]
      header_fails_iff[of "mt_script\<lparr>dlon := too_large\<rparr>"] overflows_too_large
    by (auto simp: mt_script_def)
  show ?thesis by (simp add: write_bin_Inl[OF 1] write_bin_Inl[OF 2]) (simp add: mt_script_def)
qed


text \<open>
  C5 (amended). For every grid the encoder accepts, with a volume of shape
  \<open>(12, nlat, nlon)\<close>, decoding the encoder's output by the format table reproduces
  \<open>nlat\<close>, \<open>nlon\<close>, \<open>scale\<close> and the byte volume exactly, and each of \<open>lat0\<close>, \<open>lon0\<close>,
  \<open>dlat\<close>, \<open>dlon\<close> rounded to the nearest binary32 value. A field that is a binary32 value
  is therefore reproduced exactly, as the script's -64.5, -179.5 and 1.0 are. The claim
  as stated, every field exactly, is refuted by \<open>decode_after_write_bin_counterexample\<close>:
  the double 0.1 comes back as the binary32 value nearest to 0.1.
\<close>

theorem decode_after_write_bin:
  assumes "write_bin fs path arr mt = (fs', Inr ())"
    and "shaped arr (nat (nlat mt)) (nat (nlon mt))"
  shows "(\<exists>bs. fs' path = Some bs
           \<and> decode bs = Some ((12, nat (nlat mt), nat (nlon mt)), arr,
                mt\<lparr>lat0 := to_f32 (lat0 mt), lon0 := to_f32 (lon0 mt),
                   dlat := to_f32 (dlat mt), dlon := to_f32 (dlon mt)\<rparr>))
     \<and> to_f32 (to_f32 x) = to_f32 x
     \<and> to_f32 (Fin (- (129 / 2))) = Fin (- (129 / 2))
     \<and> to_f32 (Fin (- (359 / 2))) = Fin (- (359 / 2))
     \<and> to_f32 (Fin 1) = Fin 1"
  using write_bin_decode[OF assms] to_f32_idem[of x] to_f32_script_values by blast

theorem decode_after_write_bin_witness:
  "write_bin Map.empty ''tl.bin'' arr_small mt_script
     = (Map.empty(''tl.bin'' \<mapsto> layout mt_script @ tobytes arr_small), Inr ())
   \<and> shaped arr_small (nat (nlat mt_script)) (nat (nlon mt_script))
   \<and> decode (layout mt_script @ tobytes arr_small) = Some ((12, 1, 2), arr_small, mt_script)"
proof -
  have w: "write_bin Map.empty ''tl.bin'' arr_small mt_script
     = (Map.empty(''tl.bin'' \<mapsto> layout mt_script @ tobytes arr_small), Inr ())"
    by (rule write_bin_mt_script)
  have n: "nat (nlat mt_script) = 1" "nat (nlon mt_script) = 2" by (simp_all add: mt_script_def)
  have sh: "shaped arr_small (nat (nlat mt_script)) (nat (nlon mt_script))"
    using shaped_arr_small by (simp add: n)
  have e: "mt_script\<lparr>lat0 := to_f32 (lat0 mt_script), lon0 := to_f32 (lon0 mt_script),
                   dlat := to_f32 (dlat mt_script), dlon := to_f32 (dlon mt_script)\<rparr> = mt_script"
    by (simp add: mt_script_def to_f32_script_values)
  have "decode (layout mt_script @ tobytes arr_small) = Some ((12, 1, 2), arr_small, mt_script)"
    using decode_after_write_bin[OF w sh] by (simp add: n e)
  then show ?thesis using w sh by simp
qed


theorem decode_after_write_bin_counterexample:
  "\<exists>bs mt'. fst (write_bin Map.empty ''tl.bin'' arr_small (mt_script\<lparr>dlon := r64 (1 / 10)\<rparr>))
                ''tl.bin'' = Some bs
     \<and> decode bs = Some ((12, 1, 2), arr_small, mt')
     \<and> dlon (mt_script\<lparr>dlon := r64 (1 / 10)\<rparr>) = Fin (3602879701896397 / 36028797018963968)
     \<and> dlon mt' = Fin (13421773 / 134217728)"
proof -
  define mt where "mt = mt_script\<lparr>dlon := r64 (1 / 10)\<rparr>"
  have d: "dlon mt = Fin (3602879701896397 / 36028797018963968)"
    by (simp add: mt_def r64_tenth)
  have t: "to_f32 (dlon mt) = Fin (13421773 / 134217728)"
    by (simp only: d to_f32_def pyfloat.case r32_tenth)
  have no: "\<not> f32_overflows (dlon mt)"
    by (simp only: f32_overflows_iff t is_inf.simps simp_thms)
  have n: "nat (nlat mt) = 1" "nat (nlon mt) = 2" by (simp_all add: mt_def mt_script_def)
  have h: "header mt = Inr (layout mt)"
    using no by (simp add: header_Inr_iff layout_def mt_def mt_script_def
        not_overflows_script_values)
  have w: "write_bin Map.empty ''tl.bin'' arr_small mt
      = (Map.empty(''tl.bin'' \<mapsto> layout mt @ tobytes arr_small), Inr ())"
    by (simp add: write_bin_def h)
  have sh: "shaped arr_small (nat (nlat mt)) (nat (nlon mt))"
    using shaped_arr_small by (simp add: n)
  have "decode (layout mt @ tobytes arr_small)
      = Some ((12, 1, 2), arr_small,
          mt\<lparr>lat0 := to_f32 (lat0 mt), lon0 := to_f32 (lon0 mt),
             dlat := to_f32 (dlat mt), dlon := to_f32 (dlon mt)\<rparr>)"
    using write_bin_decode(2)[OF w sh] by (simp add: n)
  then show ?thesis
    unfolding mt_def[symmetric] using w d t
    by (intro exI[of _ "layout mt @ tobytes arr_small"]
        exI[of _ "mt\<lparr>lat0 := to_f32 (lat0 mt), lon0 := to_f32 (lon0 mt),
             dlat := to_f32 (dlat mt), dlon := to_f32 (dlon mt)\<rparr>"]) simp
qed

subsection \<open>Sampler fallback\<close>



subsection \<open>Cell centers: count, first value and spacing\<close>





lemma is_finite_fneg [simp]: "is_finite (fneg x) = is_finite x"
  by (cases x) auto

lemma is_zero_finite: "is_zero x \<Longrightarrow> is_finite x"
  by (auto simp: is_zero_def)























subsection \<open>The volume built by \<open>build_grid\<close>\<close>

text \<open>
  Whenever \<open>build_grid\<close> returns, the volume has the shape \<open>(12, nlat, nlon)\<close> of its
  metadata, which is the shape the encoder's layout assumes; the metadata carry the
  counts and first values of the two axes and the steps and scale of the configuration.
\<close>

lemma shaped_update:
  assumes "shaped out a b"
  shows "shaped (map (\<lambda>m. (out ! m)[i := (out ! m ! i)[j := f m]]) [0..<length out]) a b"
proof -
  define out' where "out' = map (\<lambda>m. (out ! m)[i := (out ! m ! i)[j := f m]]) [0..<length out]"
  have row: "length plane' = a \<and> (\<forall>row\<in>set plane'. length row = b)"
    if p: "length plane = a" "\<forall>row\<in>set plane. length row = b"
      and p': "plane' = plane[i := (plane ! i)[j := x]]" for plane plane' x
  proof (cases "i < length plane")
    case True
    then have "length ((plane ! i)[j := x]) = b" using p by simp
    moreover have "set plane' \<subseteq> insert ((plane ! i)[j := x]) (set plane)"
      unfolding p' by (rule set_update_subset_insert)
    ultimately show ?thesis using p p' by auto
  next
    case False
    then have "plane' = plane" unfolding p' by (simp add: list_update_beyond)
    then show ?thesis using p by simp
  qed
  have "length out' = 12" using assms by (simp add: out'_def shaped_def)
  moreover have "length plane' = a \<and> (\<forall>row\<in>set plane'. length row = b)"
    if mem: "plane' \<in> set out'" for plane'
  proof -
    obtain m where m: "m < length out" "plane' = (out ! m)[i := (out ! m ! i)[j := f m]]"
      using mem by (auto simp: out'_def)
    have "out ! m \<in> set out" using m(1) by simp
    then have "length (out ! m) = a" "\<forall>row\<in>set (out ! m). length row = b"
      using assms by (auto simp: shaped_def)
    then show ?thesis using row[OF _ _ m(2)] by blast
  qed
  ultimately show ?thesis unfolding out'_def[symmetric] by (simp add: shaped_def)
qed

lemma shaped_set_cell:
  assumes "set_cell out i j v = Inr out'" and "shaped out a b"
  shows "shaped out' a b"
proof -
  have "out' = map (\<lambda>m. (out ! m)[i := (out ! m ! i)[j := v ! m]]) [0..<length out]
      \<or> out' = map (\<lambda>m. (out ! m)[i := (out ! m ! i)[j := v ! 0]]) [0..<length out]"
    using assms(1) by (simp add: set_cell_def split: if_splits)
  then show ?thesis
    using shaped_update[OF assms(2), of i j "\<lambda>m. v ! m"]
      shaped_update[OF assms(2), of i j "\<lambda>m. v ! 0"]
    by auto
qed

lemma shaped_cell:
  assumes "cell ub prov months sc i lat j lon st = (calls, Inr out')" and "shaped (snd st) a b"
  shows "shaped out' a b"
  using assms shaped_set_cell[of "snd st" i j _ out' a b]
  by (auto simp: cell_def Let_def split: prod.splits sum.splits)

lemma shaped_lon_loop:
  assumes "lon_loop ub prov months sc i lat js st = (calls, Inr out')" and "shaped (snd st) a b"
  shows "shaped out' a b"
  using assms
proof (induction js arbitrary: st)
  case Nil
  then show ?case by simp
next
  case (Cons p js)
  obtain j lon where p: "p = (j, lon)" by (cases p)
  obtain c r where c: "cell ub prov months sc i lat j lon st = (c, r)" by (cases "cell ub prov months sc i lat j lon st")
  show ?case
  proof (cases r)
    case (Inl e)
    then show ?thesis using Cons.prems c p by simp
  next
    case (Inr out1)
    have "shaped out1 a b" using shaped_cell c Inr Cons.prems(2) by blast
    then show ?thesis using Cons.IH[of "(c, out1)"] Cons.prems(1) c p Inr by simp
  qed
qed

lemma shaped_lat_loop:
  assumes "lat_loop ub prov months sc is lons st = (calls, Inr out')" and "shaped (snd st) a b"
  shows "shaped out' a b"
  using assms
proof (induction "is" arbitrary: st)
  case Nil
  then show ?case by simp
next
  case (Cons p rest)
  obtain i lat where p: "p = (i, lat)" by (cases p)
  obtain c r where c: "lon_loop ub prov months sc i lat lons st = (c, r)"
    by (cases "lon_loop ub prov months sc i lat lons st")
  show ?case
  proof (cases r)
    case (Inl e)
    then show ?thesis using Cons.prems c p by simp
  next
    case (Inr out1)
    have "shaped out1 a b" using shaped_lon_loop c Inr Cons.prems(2) by blast
    then show ?thesis using Cons.IH[of "(c, out1)"] Cons.prems(1) c p Inr by simp
  qed
qed

lemma shaped_zeros: "shaped (replicate 12 (replicate a (replicate b 0))) a b"
  by (simp add: shaped_def)

lemma build_grid_shaped:
  assumes "build_grid cfg ub prov = (calls, Inr (out, mt))"
  shows "shaped out (nat (nlat mt)) (nat (nlon mt))"
    and "dlat mt = DLAT cfg" and "dlon mt = DLON cfg" and "scale mt = SCALE cfg"
    and "\<exists>lats lons. centers (LAT_MIN cfg) (LAT_MAX cfg) (DLAT cfg) = Inr (lats, nlat mt)
           \<and> centers (LON_MIN cfg) (LON_MAX cfg) (DLON cfg) = Inr (lons, nlon mt)
           \<and> lats \<noteq> [] \<and> lons \<noteq> [] \<and> lat0 mt = hd lats \<and> lon0 mt = hd lons"
proof -
  obtain lats n_lat where la: "centers (LAT_MIN cfg) (LAT_MAX cfg) (DLAT cfg) = Inr (lats, n_lat)"
    using assms by (cases "centers (LAT_MIN cfg) (LAT_MAX cfg) (DLAT cfg)")
      (auto simp: build_grid_def)
  obtain lons n_lon where lo: "centers (LON_MIN cfg) (LON_MAX cfg) (DLON cfg) = Inr (lons, n_lon)"
    using assms la by (cases "centers (LON_MIN cfg) (LON_MAX cfg) (DLON cfg)")
      (auto simp: build_grid_def)
  define z where "z = replicate 12 (replicate (nat n_lat) (replicate (nat n_lon) (0 :: 8 word)))"
  obtain c r where l: "lat_loop ub prov [0..<12] (SCALE cfg) (enumerate_list lats)
      (enumerate_list lons) ([], z) = (c, r)"
    by (cases "lat_loop ub prov [0..<12] (SCALE cfg) (enumerate_list lats) (enumerate_list lons) ([], z)")
  have b: "(case r of Inl e \<Rightarrow> (c, Inl e)
     | Inr out' \<Rightarrow> (c, bind (item0 lats) (\<lambda>la0. bind (item0 lons) (\<lambda>lo0.
          Inr (out', \<lparr>nlat = n_lat, nlon = n_lon, lat0 = la0, lon0 = lo0,
                      dlat = DLAT cfg, dlon = DLON cfg, scale = SCALE cfg\<rparr>)))))
     = (calls, Inr (out, mt))"
    using assms la lo l by (simp add: build_grid_def z_def Let_def)
  then obtain out' where r: "r = Inr out'" by (cases r) auto
  have ne: "lats \<noteq> []" "lons \<noteq> []"
    using b r by (auto simp: item0_def bind_def split: list.splits)
  then have mt: "out = out'" "mt = \<lparr>nlat = n_lat, nlon = n_lon, lat0 = hd lats, lon0 = hd lons,
                      dlat = DLAT cfg, dlon = DLON cfg, scale = SCALE cfg\<rparr>"
    using b r by (auto simp: item0_def bind_def split: list.splits)
  have "shaped out' (nat n_lat) (nat n_lon)"
    using shaped_lat_loop[of ub prov "[0..<12]" "SCALE cfg" "enumerate_list lats"
        "enumerate_list lons" "([], z)" c out' "nat n_lat" "nat n_lon"] l r shaped_zeros
    by (simp add: z_def)
  then show "shaped out (nat (nlat mt)) (nat (nlon mt))" using mt by simp
  show "dlat mt = DLAT cfg" "dlon mt = DLON cfg" "scale mt = SCALE cfg" using mt by simp_all
  show "\<exists>lats lons. centers (LAT_MIN cfg) (LAT_MAX cfg) (DLAT cfg) = Inr (lats, nlat mt)
           \<and> centers (LON_MIN cfg) (LON_MAX cfg) (DLON cfg) = Inr (lons, nlon mt)
           \<and> lats \<noteq> [] \<and> lons \<noteq> [] \<and> lat0 mt = hd lats \<and> lon0 mt = hd lons"
    using la lo ne mt by simp
qed

end
